theory Spec2Isabelle
  imports Main "HOL-Library.Sublist"
begin

section \<open>kube-plex: the remote transcode orchestrator of main.go\<close>

text \<open>
  The program captures its own argument vector and environment, rewrites the
  arguments, builds a pod, creates it, waits for it, dumps its logs when the wait
  ended with an error, and deletes it. Go strings are byte sequences, modelled as
  \<^typ>\<open>string\<close>; a runtime panic and a \<^verbatim>\<open>log.Fatalf\<close> are values of
  \<open>failure\<close>, returned on the left of a sum.
\<close>

subsection \<open>Failures\<close>

datatype failure =
    IndexOutOfRange nat nat
      \<comment> \<open>runtime panic: index out of range [i] with length n\<close>
  | ParseIntPanic string
      \<comment> \<open>\<^verbatim>\<open>panic(err)\<close> of \<^verbatim>\<open>strToi64\<close>\<close>
  | MustParsePanic string
      \<comment> \<open>the panic of \<^verbatim>\<open>resource.MustParse\<close>\<close>
  | Fatal string
      \<comment> \<open>\<^verbatim>\<open>log.Fatalf\<close>: the message is logged and the process exits at once\<close>

subsection \<open>The argument rewriter\<close>

definition loopback :: string where
  "loopback = ''http://127.0.0.1:32400''"

definition is_url_flag :: "string \<Rightarrow> bool" where
  "is_url_flag v \<longleftrightarrow>
     v = ''-progressurl'' \<or> v = ''-manifest_name'' \<or> v = ''-segment_list''"

definition is_loglevel_flag :: "string \<Rightarrow> bool" where
  "is_loglevel_flag v \<longleftrightarrow> v = ''-loglevel'' \<or> v = ''-loglevel_plex''"

text \<open>
  \<^verbatim>\<open>strings.Replace(s, old, new, 1)\<close>: the leftmost occurrence of \<open>old\<close> in
  \<open>s\<close> is replaced by \<open>new\<close>; \<open>s\<close> is returned as it is when there is none.
\<close>

fun Replace1 :: "string \<Rightarrow> string \<Rightarrow> string \<Rightarrow> string" where
  "Replace1 [] old new = (if old = [] then new else [])"
| "Replace1 (c # cs) old new =
     (if prefix old (c # cs) then new @ drop (length old) (c # cs)
      else c # Replace1 cs old new)"

text \<open>
  \<^verbatim>\<open>for i, v := range in\<close> over a slice: the length is read once, the element
  \<open>v\<close> is read when the iteration reaches index \<open>i\<close>, so a write to
  \<open>in[i+1]\<close> is seen by the next iteration. Reading or writing \<open>in[i+1]\<close>
  past the end panics.
\<close>

function rewriteArgs_loop :: "string \<Rightarrow> nat \<Rightarrow> string list \<Rightarrow> failure + string list" where
  "rewriteArgs_loop addr i xs =
     (if i < length xs then
        (if is_url_flag (xs ! i) then
           (if Suc i < length xs
            then rewriteArgs_loop addr (Suc i) (xs[Suc i := Replace1 (xs ! Suc i) loopback addr])
            else Inl (IndexOutOfRange (Suc i) (length xs)))
         else if is_loglevel_flag (xs ! i) then
           (if Suc i < length xs
            then rewriteArgs_loop addr (Suc i) (xs[Suc i := ''debug''])
            else Inl (IndexOutOfRange (Suc i) (length xs)))
         else rewriteArgs_loop addr (Suc i) xs)
      else Inr xs)"
  by pat_completeness auto
termination
  by (relation "measure (\<lambda>(addr, i, xs). length xs - i)") auto

definition rewriteArgs :: "string \<Rightarrow> string list \<Rightarrow> failure + string list" where
  "rewriteArgs pmsInternalAddress xs = rewriteArgs_loop pmsInternalAddress 0 xs"

definition rewriteEnv :: "string list \<Rightarrow> string list" where
  "rewriteEnv env = env"

subsection \<open>The environment translator\<close>

record EnvVar =
  Name :: string
  Value :: string

text \<open>
  \<^verbatim>\<open>strings.SplitN(v, "=", 2)\<close>: one element when \<open>v\<close> has no \<open>=\<close>, else the
  part before the first \<open>=\<close> and the whole rest after it.
\<close>

definition SplitN2 :: "string \<Rightarrow> string list" where
  "SplitN2 v =
     (if CHR ''='' \<in> set v
      then [takeWhile (\<lambda>c. c \<noteq> CHR ''='') v, tl (dropWhile (\<lambda>c. c \<noteq> CHR ''='') v)]
      else [v])"

definition index :: "'a list \<Rightarrow> nat \<Rightarrow> failure + 'a" where
  "index xs i = (if i < length xs then Inr (xs ! i) else Inl (IndexOutOfRange i (length xs)))"

fun toCoreV1EnvVar :: "string list \<Rightarrow> failure + EnvVar list" where
  "toCoreV1EnvVar [] = Inr []"
| "toCoreV1EnvVar (v # vs) =
     (let splitvar = SplitN2 v in
      case index splitvar 0 of
        Inl e \<Rightarrow> Inl e
      | Inr n \<Rightarrow>
          (case index splitvar 1 of
             Inl e \<Rightarrow> Inl e
           | Inr x \<Rightarrow>
               (case toCoreV1EnvVar vs of
                  Inl e \<Rightarrow> Inl e
                | Inr out \<Rightarrow> Inr (\<lparr>Name = n, Value = x\<rparr> # out))))"

subsection \<open>The pod and the configuration\<close>

text \<open>
  The fields of \<^verbatim>\<open>corev1.Pod\<close> that the program sets or reads, flattened. A Go map
  with one entry is an association list. The quantity type \<open>'q\<close> of the resource
  library is a parameter.
\<close>

record VolumeMount =
  MountName :: string
  MountPath :: string
  ReadOnly :: bool

record Volume =
  VolumeName :: string
  ClaimName :: string

record 'q Container =
  ContainerName :: string
  Command :: "string list"
  Image :: string
  Env :: "EnvVar list"
  WorkingDir :: string
  Limits :: "(string \<times> 'q) list"
  VolumeMounts :: "VolumeMount list"

record 'q Pod =
  GenerateName :: string
  PodName :: string
  PodNamespace :: string
  NodeSelector :: "(string \<times> string) list"
  RestartPolicy :: string
  RunAsUser :: "int option"
  RunAsGroup :: "int option"
  Containers :: "'q Container list"
  Volumes :: "Volume list"
  Phase :: string

definition PodPending :: string where "PodPending = ''Pending''"
definition PodRunning :: string where "PodRunning = ''Running''"
definition PodSucceeded :: string where "PodSucceeded = ''Succeeded''"
definition PodFailed :: string where "PodFailed = ''Failed''"
definition PodUnknown :: string where "PodUnknown = ''Unknown''"

definition ResourceCPU :: string where "ResourceCPU = ''cpu''"
definition RestartPolicyNever :: string where "RestartPolicyNever = ''Never''"

definition constDefaultLimitCPU :: string where
  "constDefaultLimitCPU = ''100m''"

text \<open>The package-level variables, read from the environment when the program starts.\<close>

record globals =
  dataPVC :: string
  configPVC :: string
  transcodePVC :: string
  namespace :: string
  pmsImage :: string
  pmsInternalAddress :: string
  limitCPU :: string

text \<open>
  Library functions the program calls and that are not part of it:
  \<^verbatim>\<open>strconv.ParseInt(s, 10, 64)\<close> and \<^verbatim>\<open>resource.MustParse\<close> (\<open>None\<close> where
  they fail), and the \<^verbatim>\<open>%q\<close> verb of \<^verbatim>\<open>fmt\<close>.
\<close>

record 'q lib =
  ParseInt :: "string \<Rightarrow> int option"
  MustParse :: "string \<Rightarrow> 'q option"
  Quote :: "string \<Rightarrow> string"

definition setDefaults :: "globals \<Rightarrow> globals" where
  "setDefaults g = (if limitCPU g = [] then g\<lparr>limitCPU := constDefaultLimitCPU\<rparr> else g)"

definition strToi64 :: "'q lib \<Rightarrow> string \<Rightarrow> failure + int" where
  "strToi64 L s = (case ParseInt L s of None \<Rightarrow> Inl (ParseIntPanic s) | Some n \<Rightarrow> Inr n)"

text \<open>
  The calls inside the composite literal run in the order they are written:
  the environment first, then the user id, the group id and the CPU limit.
\<close>

definition generatePod ::
  "'q lib \<Rightarrow> globals \<Rightarrow> string \<Rightarrow> string \<Rightarrow> string \<Rightarrow> string list \<Rightarrow> string list
     \<Rightarrow> failure + 'q Pod" where
  "generatePod L g cwd uid gid env args =
     (case toCoreV1EnvVar env of
        Inl e \<Rightarrow> Inl e
      | Inr envVars \<Rightarrow>
     (case strToi64 L uid of
        Inl e \<Rightarrow> Inl e
      | Inr u \<Rightarrow>
     (case strToi64 L gid of
        Inl e \<Rightarrow> Inl e
      | Inr gr \<Rightarrow>
     (case MustParse L (limitCPU g) of
        None \<Rightarrow> Inl (MustParsePanic (limitCPU g))
      | Some q \<Rightarrow>
          Inr \<lparr>GenerateName = ''pms-elastic-transcoder-'',
               PodName = [],
               PodNamespace = [],
               NodeSelector = [(''kubernetes.io/arch'', ''amd64'')],
               RestartPolicy = RestartPolicyNever,
               RunAsUser = Some u,
               RunAsGroup = Some gr,
               Containers =
                 [\<lparr>ContainerName = ''plex'',
                   Command = args,
                   Image = pmsImage g,
                   Env = envVars,
                   WorkingDir = cwd,
                   Limits = [(ResourceCPU, q)],
                   VolumeMounts =
                     [\<lparr>MountName = ''data'', MountPath = ''/data'', ReadOnly = False\<rparr>,
                      \<lparr>MountName = ''config'', MountPath = ''/config'', ReadOnly = True\<rparr>,
                      \<lparr>MountName = ''transcode'', MountPath = ''/transcode'', ReadOnly = False\<rparr>,
                      \<lparr>MountName = ''transcode'', MountPath = ''/tmp'', ReadOnly = False\<rparr>]\<rparr>],
               Volumes =
                 [\<lparr>VolumeName = ''data'', ClaimName = dataPVC g\<rparr>,
                  \<lparr>VolumeName = ''config'', ClaimName = configPVC g\<rparr>,
                  \<lparr>VolumeName = ''transcode'', ClaimName = transcodePVC g\<rparr>],
               Phase = []\<rparr>))))"

subsection \<open>What a run does to the outside\<close>

text \<open>
  A run is observed through the calls it makes on the cluster and the lines it logs, in
  order.
\<close>

datatype 'q effect =
    Printf string
  | CreatePod string "'q Pod"
      \<comment> \<open>\<^verbatim>\<open>Pods(namespace).Create(ctx, pod, ...)\<close>\<close>
  | GetPod string string
      \<comment> \<open>\<^verbatim>\<open>Pods(namespace).Get(ctx, name, ...)\<close>\<close>
  | GetLogsStream string string
      \<comment> \<open>\<^verbatim>\<open>Pods(namespace).GetLogs(name, ...).Stream(ctx)\<close>\<close>
  | ReadAllLogs
      \<comment> \<open>\<^verbatim>\<open>io.ReadAll(logsReader)\<close>\<close>
  | DeletePod string string
      \<comment> \<open>\<^verbatim>\<open>Pods(namespace).Delete(ctx, name, ...)\<close>\<close>

definition emit :: "'e list \<Rightarrow> 'a \<times> 'e list \<Rightarrow> 'a \<times> 'e list" where
  "emit es r = (fst r, es @ snd r)"

fun is_GetPod :: "'q effect \<Rightarrow> bool" where
  "is_GetPod (GetPod ns n) = True"
| "is_GetPod e = False"

fun is_GetLogsStream :: "'q effect \<Rightarrow> bool" where
  "is_GetLogsStream (GetLogsStream ns n) = True"
| "is_GetLogsStream e = False"

fun is_DeletePod :: "'q effect \<Rightarrow> bool" where
  "is_DeletePod (DeletePod ns n) = True"
| "is_DeletePod e = False"

definition calls :: "('q effect \<Rightarrow> bool) \<Rightarrow> 'q effect list \<Rightarrow> nat" where
  "calls P tr = length (filter P tr)"

subsection \<open>The watcher\<close>

text \<open>
  The errors \<^verbatim>\<open>waitForPodCompletion\<close> returns: \<^verbatim>\<open>fmt.Errorf("context cancelled")\<close>,
  the error of the \<^verbatim>\<open>Get\<close> call as it is, and \<^verbatim>\<open>fmt.Errorf("pod %q failed", name)\<close>.
\<close>

datatype wait_error =
    ErrContextCancelled
  | ErrGet string
  | ErrPodFailed string

fun error_message :: "'q lib \<Rightarrow> wait_error \<Rightarrow> string" where
  "error_message L ErrContextCancelled = ''context cancelled''"
| "error_message L (ErrGet err) = err"
| "error_message L (ErrPodFailed n) = ''pod '' @ Quote L n @ '' failed''"

text \<open>
  Each turn of the loop is a \<^verbatim>\<open>select\<close> between the context being done and the
  five second timer; on the timer the pod is fetched. What the select receives and
  what the fetch returns is the environment's: a list of events, one per turn. The
  loop has no exit of its own, so when the events run out it is still waiting: the
  result is \<open>None\<close>. \<open>Some None\<close> is the return of \<^verbatim>\<open>nil\<close>.
  The fetched pod shadows the parameter inside the case only: every fetch uses the
  namespace and name of the pod that was passed in.
\<close>

datatype 'q wait_event =
    CtxDone
  | Tick "string + 'q Pod"

fun waitForPodCompletion ::
  "'q lib \<Rightarrow> 'q Pod \<Rightarrow> 'q wait_event list \<Rightarrow> wait_error option option \<times> 'q effect list" where
  "waitForPodCompletion L pod [] = (None, [])"
| "waitForPodCompletion L pod (CtxDone # evs) = (Some (Some ErrContextCancelled), [])"
| "waitForPodCompletion L pod (Tick r # evs) =
     emit [GetPod (PodNamespace pod) (PodName pod)]
       (case r of
          Inl err \<Rightarrow> (Some (Some (ErrGet err)), [])
        | Inr p \<Rightarrow>
            if Phase p = PodPending then waitForPodCompletion L pod evs
            else if Phase p = PodRunning then waitForPodCompletion L pod evs
            else if Phase p = PodUnknown then
              emit [Printf (''warning: pod '' @ Quote L (PodName p) @ '' is in an unknown state'')]
                (waitForPodCompletion L pod evs)
            else if Phase p = PodFailed then (Some (Some (ErrPodFailed (PodName p))), [])
            else if Phase p = PodSucceeded then (Some None, [])
            else waitForPodCompletion L pod evs)"

subsection \<open>The orchestrator\<close>

text \<open>
  Everything \<^verbatim>\<open>main\<close> reads from outside: the process's environment and
  arguments, and what each call returns (an error is its message). \<open>api_Get\<close>
  is what the successive polls of the watcher return. \<open>stop_after\<close> is the
  race of the \<^verbatim>\<open>select\<close> in \<^verbatim>\<open>main\<close>: \<open>Some k\<close> when the stop
  channel of the signal handler delivers once the watcher has made \<open>k\<close> polls
  without returning, \<open>None\<close> when it never does. The context is cancelled by
  the deferred call only, so the watcher started by \<^verbatim>\<open>main\<close> never sees it done.
\<close>

record 'q world =
  os_Environ :: "string list"
  os_Args :: "string list"
  os_Getwd :: "string + string"
  BuildConfigFromFlags :: "string option"
  NewForConfig :: "string option"
  PLEX_UID :: string
  PLEX_GID :: string
  api_Create :: "string + 'q Pod"
  api_Get :: "(string + 'q Pod) list"
  stop_after :: "nat option"
  api_Stream :: "string option"
  io_ReadAll :: "string + string"
  api_Delete :: "string option"

datatype outcome =
    Returned
      \<comment> \<open>\<^verbatim>\<open>main\<close> returns\<close>
  | Died failure
      \<comment> \<open>a panic or \<^verbatim>\<open>log.Fatalf\<close> ends the process\<close>
  | Waiting
      \<comment> \<open>still blocked in the \<^verbatim>\<open>select\<close>\<close>

text \<open>Lines 49 to 88: up to the creation of the pod.\<close>

definition main_setup :: "'q lib \<Rightarrow> globals \<Rightarrow> 'q world \<Rightarrow> (failure + 'q Pod) \<times> 'q effect list" where
  "main_setup L g0 w =
     (let env = os_Environ w; args0 = os_Args w; env = rewriteEnv env in
      case rewriteArgs (pmsInternalAddress g0) args0 of
        Inl e \<Rightarrow> (Inl e, [])
      | Inr args \<Rightarrow>
     (let g = setDefaults g0 in
      case os_Getwd w of
        Inl err \<Rightarrow> (Inl (Fatal (''Error getting working directory: '' @ err)), [])
      | Inr cwd \<Rightarrow>
     (case BuildConfigFromFlags w of
        Some err \<Rightarrow> (Inl (Fatal (''Error building kubeconfig: '' @ err)), [])
      | None \<Rightarrow>
     (case NewForConfig w of
        Some err \<Rightarrow> (Inl (Fatal (''Error building kubernetes clientset: '' @ err)), [])
      | None \<Rightarrow>
     (case generatePod L g cwd (PLEX_UID w) (PLEX_GID w) env args of
        Inl e \<Rightarrow> (Inl e, [])
      | Inr pod \<Rightarrow>
          emit [CreatePod (namespace g) pod]
            (case api_Create w of
               Inl err \<Rightarrow> (Inl (Fatal (''Error creating pod: '' @ err)), [])
             | Inr pod' \<Rightarrow> (Inr pod', [Printf (''started pod '' @ PodName pod' @ [CHR 0x0A])])))))))"

text \<open>
  Lines 90 to 100 and 118: the watcher runs in its own goroutine and \<^verbatim>\<open>main\<close>
  receives either its result or the stop signal, whichever comes first.
\<close>

datatype select_result =
    WaitReturned "wait_error option"
  | StopReceived

definition main_select ::
  "'q lib \<Rightarrow> 'q Pod \<Rightarrow> 'q world \<Rightarrow> select_result option \<times> 'q effect list" where
  "main_select L pod w =
     (case stop_after w of
        None \<Rightarrow>
          (case waitForPodCompletion L pod (map Tick (api_Get w)) of
             (None, tr) \<Rightarrow> (None, tr)
           | (Some r, tr) \<Rightarrow> (Some (WaitReturned r), tr))
      | Some k \<Rightarrow>
          (case waitForPodCompletion L pod (map Tick (take k (api_Get w))) of
             (None, tr) \<Rightarrow> (Some StopReceived, tr)
           | (Some r, tr) \<Rightarrow> (Some (WaitReturned r), tr)))"

text \<open>Lines 122 to 125.\<close>

definition main_cleanup :: "globals \<Rightarrow> 'q Pod \<Rightarrow> 'q world \<Rightarrow> outcome \<times> 'q effect list" where
  "main_cleanup g pod w =
     emit [Printf ''cleaning up pod...'', DeletePod (namespace g) (PodName pod)]
       (case api_Delete w of
          Some err \<Rightarrow> (Died (Fatal (''error cleaning up pod: '' @ err)), [])
        | None \<Rightarrow> (Returned, []))"

text \<open>Lines 101 to 117: the log dump after a wait that returned an error.\<close>

definition main_dump_logs ::
  "'q lib \<Rightarrow> globals \<Rightarrow> 'q Pod \<Rightarrow> 'q world \<Rightarrow> wait_error \<Rightarrow> outcome \<times> 'q effect list" where
  "main_dump_logs L g pod w err =
     emit [Printf (''error waiting for pod to complete: '' @ error_message L err),
           GetLogsStream (namespace g) (PodName pod)]
       (case api_Stream w of
          Some e \<Rightarrow> (Died (Fatal (''Error getting pod logs: '' @ e)), [])
        | None \<Rightarrow>
            emit [ReadAllLogs]
              (case io_ReadAll w of
                 Inl e \<Rightarrow> (Died (Fatal (''Error reading pod logs: '' @ e)), [])
               | Inr logs \<Rightarrow>
                   emit [Printf (''pod logs:'' @ [CHR 0x0A] @ logs)] (main_cleanup g pod w)))"

definition main :: "'q lib \<Rightarrow> globals \<Rightarrow> 'q world \<Rightarrow> outcome \<times> 'q effect list" where
  "main L g0 w =
     (case main_setup L g0 w of
        (Inl e, tr) \<Rightarrow> (Died e, tr)
      | (Inr pod, tr) \<Rightarrow>
          emit tr
            (let g = setDefaults g0 in
             case main_select L pod w of
               (None, tr') \<Rightarrow> (Waiting, tr')
             | (Some (WaitReturned None), tr') \<Rightarrow> emit tr' (main_cleanup g pod w)
             | (Some (WaitReturned (Some err)), tr') \<Rightarrow> emit tr' (main_dump_logs L g pod w err)
             | (Some StopReceived, tr') \<Rightarrow>
                 emit (tr' @ [Printf ''exit requested.'']) (main_cleanup g pod w)))"

subsection \<open>Notions used in the statements\<close>

text \<open>
  An event on which the watcher goes round its loop again: a poll that succeeded
  and observed a phase other than \<^verbatim>\<open>Failed\<close> and \<^verbatim>\<open>Succeeded\<close>.
\<close>

fun keeps_polling :: "'q wait_event \<Rightarrow> bool" where
  "keeps_polling (Tick (Inr p)) = (Phase p \<noteq> PodFailed \<and> Phase p \<noteq> PodSucceeded)"
| "keeps_polling e = False"

text \<open>A concrete library, configuration and cluster, for evaluating the model.\<close>

definition example_lib :: "string lib" where
  "example_lib =
     \<lparr>ParseInt = (\<lambda>s. if s = ''1000'' then Some 1000 else None),
      MustParse = (\<lambda>s. if s = [] then None else Some s),
      Quote = (\<lambda>s. [CHR 0x22] @ s @ [CHR 0x22])\<rparr>"

definition example_globals :: globals where
  "example_globals =
     \<lparr>dataPVC = ''plex-data'', configPVC = ''plex-config'', transcodePVC = ''plex-transcode'',
      namespace = ''plex'', pmsImage = ''plexinc/pms-docker:latest'',
      pmsInternalAddress = ''http://plex:32400'', limitCPU = []\<rparr>"

definition example_pod :: "string \<Rightarrow> string Pod" where
  "example_pod ph =
     \<lparr>GenerateName = ''pms-elastic-transcoder-'', PodName = ''pms-elastic-transcoder-x7k2p'',
      PodNamespace = ''plex'', NodeSelector = [], RestartPolicy = RestartPolicyNever,
      RunAsUser = Some 1000, RunAsGroup = Some 1000, Containers = [], Volumes = [],
      Phase = ph\<rparr>"

definition example_world :: "string world" where
  "example_world =
     \<lparr>os_Environ = [''HOME=/config'', ''LD_LIBRARY_PATH=/usr/lib/plexmediaserver''],
      os_Args = [''Plex Transcoder'', ''-loglevel'', ''error'', ''-progressurl'',
                 ''http://127.0.0.1:32400/video/:/transcode/session/1/progress''],
      os_Getwd = Inr ''/transcode'',
      BuildConfigFromFlags = None,
      NewForConfig = None,
      PLEX_UID = ''1000'',
      PLEX_GID = ''1000'',
      api_Create = Inr (example_pod PodPending),
      api_Get = [Inr (example_pod PodPending), Inr (example_pod PodRunning),
                 Inr (example_pod PodFailed)],
      stop_after = None,
      api_Stream = None,
      io_ReadAll = Inr ''Conversion failed!'',
      api_Delete = None\<rparr>"

section \<open>The argument rewriter: properties\<close>

subsection \<open>The loop, one index at a time\<close>

declare rewriteArgs_loop.simps [simp del]

lemma loop_length:
  "rewriteArgs_loop a i xs = Inr ys \<Longrightarrow> length ys = length xs"
proof (induction a i xs rule: rewriteArgs_loop.induct)
  case (1 addr i xs)
  from "1.prems" show ?case
    apply (subst (asm) rewriteArgs_loop.simps)
    using "1.IH" apply (auto split: if_splits)
    done
qed

lemma loop_keep:
  "rewriteArgs_loop a i xs = Inr ys \<Longrightarrow> j \<le> i \<Longrightarrow> ys ! j = xs ! j"
proof (induction a i xs rule: rewriteArgs_loop.induct)
  case (1 addr i xs)
  from "1.prems" show ?case
    apply (subst (asm) rewriteArgs_loop.simps)
    using "1.IH" apply (auto split: if_splits)
    done
qed

lemma loop_step:
  "rewriteArgs_loop a i xs = Inr ys \<Longrightarrow> i \<le> j \<Longrightarrow> Suc j < length xs \<Longrightarrow>
   ys ! Suc j =
     (if is_url_flag (ys ! j) then Replace1 (xs ! Suc j) loopback a
      else if is_loglevel_flag (ys ! j) then ''debug''
      else xs ! Suc j)"
proof (induction a i xs rule: rewriteArgs_loop.induct)
  case (1 addr i xs)
  show ?case
  proof (cases "i = j")
    case True
    have k: "ys ! j = xs ! j" using loop_keep[OF "1.prems"(1), of j] True by simp
    from "1.prems" True show ?thesis
      apply (subst (asm) rewriteArgs_loop.simps)
      apply (simp add: k split: if_splits)
        apply (auto dest: loop_keep[where j="Suc j"])
      done
  next
    case False
    with "1.prems" have lt: "Suc i \<le> j" by simp
    from "1.prems" lt show ?thesis
      apply (subst (asm) rewriteArgs_loop.simps)
      apply (simp split: if_splits)
      using "1.IH" lt apply (auto)
      done
  qed
qed

lemma loop_flag_not_last:
  "rewriteArgs_loop a i xs = Inr ys \<Longrightarrow> i \<le> j \<Longrightarrow> j < length xs \<Longrightarrow>
   is_url_flag (ys ! j) \<or> is_loglevel_flag (ys ! j) \<Longrightarrow> Suc j < length xs"
proof (induction a i xs rule: rewriteArgs_loop.induct)
  case (1 addr i xs)
  show ?case
  proof (cases "i = j")
    case True
    have k: "ys ! j = xs ! j" using loop_keep[OF "1.prems"(1), of j] True by simp
    from "1.prems" True show ?thesis
      apply (subst (asm) rewriteArgs_loop.simps)
      apply (auto simp add: k split: if_splits)
      done
  next
    case False
    with "1.prems" have lt: "Suc i \<le> j" by simp
    from "1.prems" lt show ?thesis
      apply (subst (asm) rewriteArgs_loop.simps)
      apply (simp split: if_splits)
      using "1.IH" lt apply (auto)
      done
  qed
qed

lemma loop_panic:
  "rewriteArgs_loop a i xs = Inl e \<Longrightarrow> e = IndexOutOfRange (length xs) (length xs)"
proof (induction a i xs rule: rewriteArgs_loop.induct)
  case (1 addr i xs)
  from "1.prems" show ?case
    apply (subst (asm) rewriteArgs_loop.simps)
    using "1.IH" apply (auto split: if_splits)
    done
qed

subsection \<open>Replacing the first occurrence\<close>

lemma Replace1_absent:
  "\<not> sublist old s \<Longrightarrow> Replace1 s old new = s"
proof (induction s)
  case Nil
  then show ?case by auto
next
  case (Cons c cs)
  have np: "\<not> prefix old (c # cs)" using Cons.prems by (auto dest: prefix_imp_sublist)
  have "\<not> sublist old cs" using Cons.prems by (auto simp: sublist_Cons_right)
  with Cons.IH np show ?case by simp
qed

lemma Replace1_leftmost:
  "sublist old s \<Longrightarrow>
   \<exists>p q. s = p @ old @ q \<and> Replace1 s old new = p @ new @ q \<and>
         (\<forall>p' q'. s = p' @ old @ q' \<longrightarrow> length p \<le> length p')"
proof (induction s)
  case Nil
  then show ?case by auto
next
  case (Cons c cs)
  show ?case
  proof (cases "prefix old (c # cs)")
    case True
    then obtain q where q: "c # cs = old @ q" by (auto simp: prefix_def)
    have "Replace1 (c # cs) old new = new @ drop (length old) (c # cs)" using True by simp
    also have "drop (length old) (c # cs) = q" by (simp only: q drop_append drop_all order_refl diff_self_eq_0 drop_0 append_Nil)
    finally have "Replace1 (c # cs) old new = new @ q" .
    with q have "c # cs = [] @ old @ q \<and> Replace1 (c # cs) old new = [] @ new @ q \<and>
          (\<forall>p' q'. c # cs = p' @ old @ q' \<longrightarrow> length ([]::string) \<le> length p')"
      by simp
    then show ?thesis by blast
  next
    case False
    with Cons.prems have "sublist old cs" by (auto simp: sublist_Cons_right)
    from Cons.IH[OF this] obtain p q where
      pq: "cs = p @ old @ q" "Replace1 cs old new = p @ new @ q"
      "\<forall>p' q'. cs = p' @ old @ q' \<longrightarrow> length p \<le> length p'" by blast
    have least: "length (c # p) \<le> length p'" if h: "c # cs = p' @ old @ q'" for p' q'
    proof (cases p')
      case Nil
      with h have "prefix old (c # cs)" by (simp add: prefix_def)
      with False show ?thesis by simp
    next
      case (Cons d ds)
      with h have "cs = ds @ old @ q'" by simp
      with pq(3) have "length p \<le> length ds" by blast
      with Cons show ?thesis by simp
    qed
    have "c # cs = (c # p) @ old @ q \<and> Replace1 (c # cs) old new = (c # p) @ new @ q \<and>
          (\<forall>p' q'. c # cs = p' @ old @ q' \<longrightarrow> length (c # p) \<le> length p')"
      using False pq(1,2) least by simp
    then show ?thesis by blast
  qed
qed

lemma flag_no_loopback:
  "is_url_flag v \<or> is_loglevel_flag v \<Longrightarrow> Replace1 v loopback a = v"
  by (auto simp: is_url_flag_def is_loglevel_flag_def loopback_def)

lemma debug_no_flag: "\<not> is_url_flag ''debug''" "\<not> is_loglevel_flag ''debug''"
  by (simp_all add: is_url_flag_def is_loglevel_flag_def)

lemma url_not_loglevel: "is_url_flag v \<Longrightarrow> \<not> is_loglevel_flag v"
  by (auto simp: is_url_flag_def is_loglevel_flag_def)

lemma loop_flag_reached:
  assumes ret: "rewriteArgs_loop a 0 xs = Inr ys" and i: "i < length xs"
    and f: "is_url_flag (xs ! i) \<or> is_loglevel_flag (xs ! i)"
    and p: "i = 0 \<or> \<not> is_loglevel_flag (ys ! (i - 1))"
  shows "ys ! i = xs ! i"
proof (cases i)
  case 0
  then show ?thesis using loop_keep[OF ret, of 0] by simp
next
  case (Suc j)
  with p have nl: "\<not> is_loglevel_flag (ys ! j)" by simp
  from loop_step[OF ret, of j] i Suc have
    "ys ! Suc j = (if is_url_flag (ys ! j) then Replace1 (xs ! Suc j) loopback a
      else if is_loglevel_flag (ys ! j) then ''debug'' else xs ! Suc j)" by simp
  with nl f Suc show ?thesis by (simp add: flag_no_loopback)
qed

subsection \<open>The claims about the rewriter\<close>

text \<open>
  Claim C6, as the code has it. When \<^verbatim>\<open>rewriteArgs\<close> returns, the vector has
  the length it had. A callback-URL flag of the input that the element before it, as
  rewritten, does not overwrite (that element is not a verbosity flag) is still in
  place, it is not the last element, and the value after it is the old value with the
  leftmost occurrence of the loopback authority replaced by the internal address: when
  the value contains the authority it is \<open>p @ loopback @ q\<close> with no earlier
  occurrence, and becomes \<open>p @ a @ q\<close>. Every argument that does not follow a
  recognized flag of the rewritten vector is unchanged.
\<close>

theorem rewriteArgs_url_value:
  assumes ret: "rewriteArgs a xs = Inr ys"
  shows "length ys = length xs \<and>
    (\<forall>i<length xs. is_url_flag (xs ! i) \<and> (i = 0 \<or> \<not> is_loglevel_flag (ys ! (i - 1))) \<longrightarrow>
       ys ! i = xs ! i \<and> Suc i < length xs \<and>
       ys ! Suc i = Replace1 (xs ! Suc i) loopback a \<and>
       (sublist loopback (xs ! Suc i) \<longrightarrow>
          (\<exists>p q. xs ! Suc i = p @ loopback @ q \<and> ys ! Suc i = p @ a @ q \<and>
                 (\<forall>p' q'. xs ! Suc i = p' @ loopback @ q' \<longrightarrow> length p \<le> length p')))) \<and>
    (\<forall>j<length xs.
       j = 0 \<or> (\<not> is_url_flag (ys ! (j - 1)) \<and> \<not> is_loglevel_flag (ys ! (j - 1))) \<longrightarrow>
       ys ! j = xs ! j)"
proof -
  from ret have loop: "rewriteArgs_loop a 0 xs = Inr ys" by (simp add: rewriteArgs_def)
  have len: "length ys = length xs" by (rule loop_length[OF loop])
  have url: "ys ! i = xs ! i \<and> Suc i < length xs \<and>
       ys ! Suc i = Replace1 (xs ! Suc i) loopback a \<and>
       (sublist loopback (xs ! Suc i) \<longrightarrow>
          (\<exists>p q. xs ! Suc i = p @ loopback @ q \<and> ys ! Suc i = p @ a @ q \<and>
                 (\<forall>p' q'. xs ! Suc i = p' @ loopback @ q' \<longrightarrow> length p \<le> length p')))"
    if i: "i < length xs" and f: "is_url_flag (xs ! i)"
      and p: "i = 0 \<or> \<not> is_loglevel_flag (ys ! (i - 1))" for i
  proof -
    have same: "ys ! i = xs ! i" using loop_flag_reached[OF loop i _ p] f by simp
    with f have fy: "is_url_flag (ys ! i)" by simp
    have nl: "Suc i < length xs" using loop_flag_not_last[OF loop _ i] fy by simp
    have v: "ys ! Suc i = Replace1 (xs ! Suc i) loopback a"
      using loop_step[OF loop _ nl] fy by simp
    have "\<exists>p q. xs ! Suc i = p @ loopback @ q \<and> ys ! Suc i = p @ a @ q \<and>
                 (\<forall>p' q'. xs ! Suc i = p' @ loopback @ q' \<longrightarrow> length p \<le> length p')"
      if "sublist loopback (xs ! Suc i)"
      using Replace1_leftmost[OF that, of a] v by simp
    with same nl v show ?thesis by blast
  qed
  have keep: "ys ! j = xs ! j"
    if j: "j < length xs"
      and p: "j = 0 \<or> (\<not> is_url_flag (ys ! (j - 1)) \<and> \<not> is_loglevel_flag (ys ! (j - 1)))" for j
  proof (cases j)
    case 0
    then show ?thesis using loop_keep[OF loop, of 0] by simp
  next
    case (Suc k)
    with p have "\<not> is_url_flag (ys ! k)" "\<not> is_loglevel_flag (ys ! k)" by simp_all
    then show ?thesis using loop_step[OF loop, of k] j Suc by simp
  qed
  from len url keep show ?thesis by blast
qed

text \<open>The theorem at a concrete argument vector.\<close>

theorem rewriteArgs_url_value_witness:
  "rewriteArgs ''http://plex:32400''
     [''transcoder'', ''-progressurl'', ''http://127.0.0.1:32400/video/:/transcode'', ''-loglevel'', ''info'']
   = Inr [''transcoder'', ''-progressurl'', ''http://plex:32400/video/:/transcode'', ''-loglevel'', ''debug''] \<and>
   is_url_flag ''-progressurl'' \<and>
   sublist loopback ''http://127.0.0.1:32400/video/:/transcode'' \<and>
   length [''transcoder'', ''-progressurl'', ''http://plex:32400/video/:/transcode'', ''-loglevel'', ''debug'']
     = length [''transcoder'', ''-progressurl'', ''http://127.0.0.1:32400/video/:/transcode'', ''-loglevel'', ''info''] \<and>
   Replace1 ''http://127.0.0.1:32400/video/:/transcode'' loopback ''http://plex:32400''
     = ''http://plex:32400/video/:/transcode''"
proof -
  let ?xs = "[''transcoder'', ''-progressurl'', ''http://127.0.0.1:32400/video/:/transcode'', ''-loglevel'', ''info'']"
  let ?ys = "[''transcoder'', ''-progressurl'', ''http://plex:32400/video/:/transcode'', ''-loglevel'', ''debug'']"
  have r: "rewriteArgs ''http://plex:32400'' ?xs = Inr ?ys" by code_simp
  have f: "is_url_flag ''-progressurl''" by (simp add: is_url_flag_def)
  have s: "sublist loopback ''http://127.0.0.1:32400/video/:/transcode''" by code_simp
  note t = rewriteArgs_url_value[OF r]
  from t have len: "length ?ys = length ?xs" by (rule conjunct1)
  from t have "\<forall>i<length ?xs. is_url_flag (?xs ! i) \<and> (i = 0 \<or> \<not> is_loglevel_flag (?ys ! (i - 1))) \<longrightarrow>
       ?ys ! i = ?xs ! i \<and> Suc i < length ?xs \<and>
       ?ys ! Suc i = Replace1 (?xs ! Suc i) loopback ''http://plex:32400'' \<and>
       (sublist loopback (?xs ! Suc i) \<longrightarrow>
          (\<exists>p q. ?xs ! Suc i = p @ loopback @ q \<and> ?ys ! Suc i = p @ ''http://plex:32400'' @ q \<and>
                 (\<forall>p' q'. ?xs ! Suc i = p' @ loopback @ q' \<longrightarrow> length p \<le> length p')))"
    by blast
  from this[rule_format, of 1] f
  have v: "?ys ! Suc 1 = Replace1 (?xs ! Suc 1) loopback ''http://plex:32400''"
    by (simp add: is_loglevel_flag_def)
  then have v': "Replace1 ''http://127.0.0.1:32400/video/:/transcode'' loopback ''http://plex:32400''
     = ''http://plex:32400/video/:/transcode''" by simp
  from r f s len v' show ?thesis by simp
qed

text \<open>The claim as the specification words it fails on this vector.\<close>

theorem rewriteArgs_url_value_counterexample:
  "rewriteArgs ''http://plex:32400''
     [''transcoder'', ''-loglevel'', ''-progressurl'', ''http://127.0.0.1:32400/video'']
   = Inr [''transcoder'', ''-loglevel'', ''debug'', ''http://127.0.0.1:32400/video''] \<and>
   rewriteArgs ''http://plex:32400''
     [''transcoder'', ''-progressurl'', ''http://127.0.0.1:32400/video'', ''-loglevel'', ''info'']
   = Inr [''transcoder'', ''-progressurl'', ''http://plex:32400/video'', ''-loglevel'', ''debug'']"
  by code_simp

text \<open>
  Claim C7, as the code has it. When \<^verbatim>\<open>rewriteArgs\<close> returns, every verbosity
  flag of the rewritten vector is followed by \<open>debug\<close>, whatever stood there; and a
  verbosity flag of the input is still in place in the rewritten vector unless the
  element before it is a verbosity flag there, which has overwritten it.
\<close>

theorem rewriteArgs_loglevel_value:
  assumes ret: "rewriteArgs a xs = Inr ys"
  shows "(\<forall>i<length ys. is_loglevel_flag (ys ! i) \<longrightarrow> Suc i < length ys \<and> ys ! Suc i = ''debug'') \<and>
    (\<forall>i<length xs. is_loglevel_flag (xs ! i) \<and> (i = 0 \<or> \<not> is_loglevel_flag (ys ! (i - 1))) \<longrightarrow>
       ys ! i = xs ! i)"
proof -
  from ret have loop: "rewriteArgs_loop a 0 xs = Inr ys" by (simp add: rewriteArgs_def)
  have len: "length ys = length xs" by (rule loop_length[OF loop])
  have dbg: "Suc i < length ys \<and> ys ! Suc i = ''debug''"
    if i: "i < length ys" and f: "is_loglevel_flag (ys ! i)" for i
  proof -
    have nl: "Suc i < length xs" using loop_flag_not_last[OF loop, of i] i f len by simp
    have "\<not> is_url_flag (ys ! i)" using f url_not_loglevel by blast
    then show ?thesis using loop_step[OF loop _ nl] f nl len by simp
  qed
  have same: "ys ! i = xs ! i"
    if "i < length xs" "is_loglevel_flag (xs ! i)" "i = 0 \<or> \<not> is_loglevel_flag (ys ! (i - 1))" for i
    using loop_flag_reached[OF loop that(1) _ that(3)] that(2) by simp
  from dbg same show ?thesis by blast
qed

text \<open>The theorem at a concrete argument vector.\<close>

theorem rewriteArgs_loglevel_value_witness:
  "rewriteArgs ''http://plex:32400'' [''transcoder'', ''-loglevel'', ''info'', ''-loglevel_plex'', ''error'']
   = Inr [''transcoder'', ''-loglevel'', ''debug'', ''-loglevel_plex'', ''debug''] \<and>
   is_loglevel_flag ''-loglevel_plex'' \<and>
   [''transcoder'', ''-loglevel'', ''debug'', ''-loglevel_plex'', ''debug''] ! Suc 3 = ''debug''"
proof -
  let ?xs = "[''transcoder'', ''-loglevel'', ''info'', ''-loglevel_plex'', ''error'']"
  let ?ys = "[''transcoder'', ''-loglevel'', ''debug'', ''-loglevel_plex'', ''debug'']"
  have r: "rewriteArgs ''http://plex:32400'' ?xs = Inr ?ys" by code_simp
  have f: "is_loglevel_flag ''-loglevel_plex''" by (simp add: is_loglevel_flag_def)
  from rewriteArgs_loglevel_value[OF r]
  have "\<forall>i<length ?ys. is_loglevel_flag (?ys ! i) \<longrightarrow> Suc i < length ?ys \<and> ?ys ! Suc i = ''debug''"
    by (rule conjunct1)
  from this[rule_format, of 3] f have "?ys ! Suc 3 = ''debug''" by simp
  with r f show ?thesis by simp
qed

text \<open>The claim as the specification words it fails on this vector.\<close>

theorem rewriteArgs_loglevel_value_counterexample:
  "rewriteArgs ''http://plex:32400'' [''transcoder'', ''-loglevel'', ''-loglevel'', ''info'']
   = Inr [''transcoder'', ''-loglevel'', ''debug'', ''info'']"
  by code_simp

text \<open>
  Claim C8, as the code has it. For a vector whose last element is a recognized flag,
  \<^verbatim>\<open>rewriteArgs\<close> panics with index out of range when that flag is the only
  element or the element before it is neither a verbosity flag nor contains the loopback
  authority; a panic is always that one; and the only way it returns is that the element
  before the last is a verbosity flag when the loop reaches it, which overwrites the last
  element with \<open>debug\<close>.
\<close>

theorem rewriteArgs_flag_last:
  assumes ne: "xs \<noteq> []" and f: "is_url_flag (last xs) \<or> is_loglevel_flag (last xs)"
  shows "(butlast xs = [] \<or>
            (\<not> is_loglevel_flag (last (butlast xs)) \<and> \<not> sublist loopback (last (butlast xs))) \<longrightarrow>
          rewriteArgs a xs = Inl (IndexOutOfRange (length xs) (length xs))) \<and>
         (\<forall>ys. rewriteArgs a xs = Inr ys \<longrightarrow>
            2 \<le> length xs \<and> is_loglevel_flag (ys ! (length xs - 2)) \<and> last ys = ''debug'') \<and>
         (\<forall>e. rewriteArgs a xs = Inl e \<longrightarrow> e = IndexOutOfRange (length xs) (length xs))"
proof -
  let ?n = "length xs"
  have n: "0 < ?n" using ne by simp
  have lastx: "last xs = xs ! (?n - 1)" using ne by (simp add: last_conv_nth)
  have ret: "2 \<le> ?n \<and> is_loglevel_flag (ys ! (?n - 2)) \<and> last ys = ''debug''"
    if r: "rewriteArgs a xs = Inr ys" for ys
  proof -
    from r have loop: "rewriteArgs_loop a 0 xs = Inr ys" by (simp add: rewriteArgs_def)
    have len: "length ys = ?n" by (rule loop_length[OF loop])
    have nf: "\<not> (is_url_flag (ys ! (?n - 1)) \<or> is_loglevel_flag (ys ! (?n - 1)))"
      using loop_flag_not_last[OF loop, of "?n - 1"] n by auto
    have two: "2 \<le> ?n"
    proof (rule ccontr)
      assume "\<not> 2 \<le> ?n"
      with n have "?n = 1" by arith
      then have "ys ! (?n - 1) = xs ! (?n - 1)" using loop_keep[OF loop, of 0] by simp
      with nf f lastx show False by simp
    qed
    then have s: "Suc (?n - 2) = ?n - 1" "Suc (?n - 2) < ?n" by simp_all
    have st: "ys ! (?n - 1) =
       (if is_url_flag (ys ! (?n - 2)) then Replace1 (xs ! (?n - 1)) loopback a
        else if is_loglevel_flag (ys ! (?n - 2)) then ''debug'' else xs ! (?n - 1))"
      using loop_step[OF loop, of "?n - 2"] s by simp
    have ll: "is_loglevel_flag (ys ! (?n - 2))"
    proof (rule ccontr)
      assume "\<not> is_loglevel_flag (ys ! (?n - 2))"
      with st f lastx have "ys ! (?n - 1) = xs ! (?n - 1)" by (simp add: flag_no_loopback)
      with nf f lastx show False by simp
    qed
    then have "\<not> is_url_flag (ys ! (?n - 2))" using url_not_loglevel by blast
    with st ll have "ys ! (?n - 1) = ''debug''" by simp
    moreover have "ys \<noteq> []" using len ne by auto
    then have "last ys = ys ! (?n - 1)" using len by (simp add: last_conv_nth)
    ultimately show ?thesis using two ll by simp
  qed
  have pan: "e = IndexOutOfRange ?n ?n" if "rewriteArgs a xs = Inl e" for e
    using that loop_panic[of a 0 xs e] by (simp add: rewriteArgs_def)
  have plain: "rewriteArgs a xs = Inl (IndexOutOfRange ?n ?n)"
    if h: "butlast xs = [] \<or>
            (\<not> is_loglevel_flag (last (butlast xs)) \<and> \<not> sublist loopback (last (butlast xs)))"
  proof (cases "rewriteArgs a xs")
    case (Inl e)
    with pan show ?thesis by simp
  next
    case (Inr ys)
    from Inr have loop: "rewriteArgs_loop a 0 xs = Inr ys" by (simp add: rewriteArgs_def)
    from ret[OF Inr] have two: "2 \<le> ?n" and ll: "is_loglevel_flag (ys ! (?n - 2))" by simp_all
    from two have bl: "butlast xs \<noteq> []" by (cases xs rule: rev_cases) auto
    have lb: "last (butlast xs) = xs ! (?n - 2)"
      using bl two by (simp add: last_conv_nth nth_butlast numeral_2_eq_2)
    from h bl lb have pl: "\<not> is_loglevel_flag (xs ! (?n - 2))" "\<not> sublist loopback (xs ! (?n - 2))"
      by simp_all
    have "ys ! (?n - 2) = xs ! (?n - 2) \<or> ys ! (?n - 2) = ''debug''"
    proof (cases "?n - 2")
      case 0
      then show ?thesis using loop_keep[OF loop, of 0] by simp
    next
      case (Suc k)
      then have "Suc k < ?n" by simp
      from loop_step[OF loop _ this, of ] Suc pl(2) show ?thesis
        by (simp add: Replace1_absent)
    qed
    with ll pl(1) debug_no_flag(2) have False by auto
    then show ?thesis ..
  qed
  from plain ret pan show ?thesis by blast
qed

text \<open>The theorem at a concrete argument vector.\<close>

theorem rewriteArgs_flag_last_witness:
  "rewriteArgs ''http://plex:32400'' [''transcoder'', ''-i'', ''-progressurl'']
   = Inl (IndexOutOfRange 3 3) \<and> is_url_flag ''-progressurl'' \<and>
   \<not> is_loglevel_flag ''-i'' \<and> \<not> sublist loopback ''-i''"
proof -
  let ?xs = "[''transcoder'', ''-i'', ''-progressurl'']"
  have f: "is_url_flag ''-progressurl''" by (simp add: is_url_flag_def)
  have p: "\<not> is_loglevel_flag ''-i''" by (simp add: is_loglevel_flag_def)
  have s: "\<not> sublist loopback ''-i''" by code_simp
  have "?xs \<noteq> []" by simp
  moreover have "is_url_flag (last ?xs) \<or> is_loglevel_flag (last ?xs)" using f by simp
  ultimately have t: "(butlast ?xs = [] \<or>
            (\<not> is_loglevel_flag (last (butlast ?xs)) \<and> \<not> sublist loopback (last (butlast ?xs))) \<longrightarrow>
          rewriteArgs ''http://plex:32400'' ?xs = Inl (IndexOutOfRange (length ?xs) (length ?xs)))"
    using rewriteArgs_flag_last[of ?xs "''http://plex:32400''"] by blast
  with p s have "rewriteArgs ''http://plex:32400'' ?xs = Inl (IndexOutOfRange 3 3)" by simp
  with f p s show ?thesis by simp
qed

text \<open>The claim as the specification words it fails on this vector.\<close>

theorem rewriteArgs_flag_last_counterexample:
  "rewriteArgs ''http://plex:32400'' [''transcoder'', ''-loglevel'', ''-progressurl'']
   = Inr [''transcoder'', ''-loglevel'', ''debug'']"
  by code_simp


section \<open>The environment translator: properties\<close>

lemma SplitN2_wellformed:
  "CHR ''='' \<in> set v \<Longrightarrow>
   \<exists>n x. SplitN2 v = [n, x] \<and> v = n @ ''='' @ x \<and> CHR ''='' \<notin> set n"
proof -
  assume h: "CHR ''='' \<in> set v"
  let ?n = "takeWhile (\<lambda>c. c \<noteq> CHR ''='') v"
  let ?d = "dropWhile (\<lambda>c. c \<noteq> CHR ''='') v"
  from h have ne: "?d \<noteq> []" by (simp add: dropWhile_eq_Nil_conv) 
  then have "hd ?d = CHR ''=''" using hd_dropWhile[of "\<lambda>c. c \<noteq> CHR ''=''" v] by simp
  with ne have d: "?d = CHR ''='' # tl ?d" by (cases ?d) auto
  have "v = ?n @ ?d" by simp
  with d have v: "v = ?n @ ''='' @ tl ?d" by simp
  have nn: "CHR ''='' \<notin> set ?n" by (auto dest: set_takeWhileD)
  from h have "SplitN2 v = [?n, tl ?d]" by (simp add: SplitN2_def)
  with v nn show ?thesis by blast
qed

lemma toCoreV1EnvVar_one:
  "CHR ''='' \<in> set v \<Longrightarrow>
   \<exists>n x. v = n @ ''='' @ x \<and> CHR ''='' \<notin> set n \<and>
     toCoreV1EnvVar (v # vs) =
       (case toCoreV1EnvVar vs of Inl e \<Rightarrow> Inl e | Inr out \<Rightarrow> Inr (\<lparr>Name = n, Value = x\<rparr> # out))"
proof -
  assume "CHR ''='' \<in> set v"
  from SplitN2_wellformed[OF this] obtain n x where
    s: "SplitN2 v = [n, x]" "v = n @ ''='' @ x" "CHR ''='' \<notin> set n" by blast
  from s(1) have "toCoreV1EnvVar (v # vs) =
       (case toCoreV1EnvVar vs of Inl e \<Rightarrow> Inl e | Inr out \<Rightarrow> Inr (\<lparr>Name = n, Value = x\<rparr> # out))"
    by (simp add: toCoreV1EnvVar.simps index_def Let_def)
  with s(2,3) show ?thesis by blast
qed

lemma toCoreV1EnvVar_bad_head:
  "CHR ''='' \<notin> set v \<Longrightarrow> toCoreV1EnvVar (v # vs) = Inl (IndexOutOfRange 1 1)"
  by (simp add: toCoreV1EnvVar.simps SplitN2_def index_def Let_def)

declare toCoreV1EnvVar.simps(2) [simp del]

lemma toCoreV1EnvVar_failure:
  "toCoreV1EnvVar vs = Inl e \<Longrightarrow> e = IndexOutOfRange 1 1"
proof (induction vs)
  case Nil
  then show ?case by simp
next
  case (Cons v vs)
  show ?case
  proof (cases "CHR ''='' \<in> set v")
    case True
    from toCoreV1EnvVar_one[OF True, of vs] obtain n x where
      eq: "toCoreV1EnvVar (v # vs) =
        (case toCoreV1EnvVar vs of Inl e \<Rightarrow> Inl e | Inr out \<Rightarrow> Inr (\<lparr>Name = n, Value = x\<rparr> # out))"
      by blast
    show ?thesis
    proof (cases "toCoreV1EnvVar vs")
      case (Inl e')
      with eq Cons.prems have "e' = e" by simp
      with Inl Cons.IH show ?thesis by simp
    next
      case (Inr out)
      with eq Cons.prems show ?thesis by simp
    qed
  next
    case False
    from Cons.prems toCoreV1EnvVar_bad_head[OF False, of vs] show ?thesis by simp
  qed
qed

lemma toCoreV1EnvVar_malformed:
  "\<exists>v\<in>set vs. CHR ''='' \<notin> set v \<Longrightarrow> toCoreV1EnvVar vs = Inl (IndexOutOfRange 1 1)"
proof (induction vs)
  case Nil
  then show ?case by simp
next
  case (Cons v vs)
  show ?case
  proof (cases "CHR ''='' \<in> set v")
    case True
    with Cons.prems have "\<exists>v\<in>set vs. CHR ''='' \<notin> set v" by auto
    then have t: "toCoreV1EnvVar vs = Inl (IndexOutOfRange 1 1)" by (rule Cons.IH)
    from toCoreV1EnvVar_one[OF True, of vs] obtain n x where
      eq: "toCoreV1EnvVar (v # vs) =
        (case toCoreV1EnvVar vs of Inl e \<Rightarrow> Inl e | Inr out \<Rightarrow> Inr (\<lparr>Name = n, Value = x\<rparr> # out))"
      by blast
    show ?thesis by (simp only: eq t sum.case)
  next
    case False
    then show ?thesis by (rule toCoreV1EnvVar_bad_head)
  qed
qed

lemma toCoreV1EnvVar_wellformed:
  "\<forall>v\<in>set vs. CHR ''='' \<in> set v \<Longrightarrow>
   \<exists>out. toCoreV1EnvVar vs = Inr out \<and> length out = length vs \<and>
     (\<forall>i<length vs. vs ! i = Name (out ! i) @ ''='' @ Value (out ! i) \<and>
        CHR ''='' \<notin> set (Name (out ! i)))"
proof (induction vs)
  case Nil
  then show ?case by simp
next
  case (Cons v vs)
  from Cons.prems have "\<forall>v\<in>set vs. CHR ''='' \<in> set v" by simp
  from Cons.IH[OF this] obtain out where out: "toCoreV1EnvVar vs = Inr out" "length out = length vs"
    "\<forall>i<length vs. vs ! i = Name (out ! i) @ ''='' @ Value (out ! i) \<and>
        CHR ''='' \<notin> set (Name (out ! i))" by blast
  from Cons.prems have "CHR ''='' \<in> set v" by simp
  from toCoreV1EnvVar_one[OF this, of vs] obtain n x where
    nx: "v = n @ ''='' @ x" "CHR ''='' \<notin> set n" and
    eq: "toCoreV1EnvVar (v # vs) =
        (case toCoreV1EnvVar vs of Inl e \<Rightarrow> Inl e | Inr out \<Rightarrow> Inr (\<lparr>Name = n, Value = x\<rparr> # out))"
    by blast
  have nx3: "toCoreV1EnvVar (v # vs) = Inr (\<lparr>Name = n, Value = x\<rparr> # out)"
    by (simp only: eq out(1) sum.case)
  have "\<forall>i<length (v # vs). (v # vs) ! i =
        Name ((\<lparr>Name = n, Value = x\<rparr> # out) ! i) @ ''='' @ Value ((\<lparr>Name = n, Value = x\<rparr> # out) ! i) \<and>
        CHR ''='' \<notin> set (Name ((\<lparr>Name = n, Value = x\<rparr> # out) ! i))"
  proof (intro allI impI)
    fix i assume "i < length (v # vs)"
    show "(v # vs) ! i =
        Name ((\<lparr>Name = n, Value = x\<rparr> # out) ! i) @ ''='' @ Value ((\<lparr>Name = n, Value = x\<rparr> # out) ! i) \<and>
        CHR ''='' \<notin> set (Name ((\<lparr>Name = n, Value = x\<rparr> # out) ! i))"
    proof (cases i)
      case 0
      with nx show ?thesis by simp
    next
      case (Suc k)
      with \<open>i < length (v # vs)\<close> have "k < length vs" by simp
      with out(3) Suc show ?thesis by simp
    qed
  qed
  with nx3 out(2) show ?case by simp
qed

text \<open>
  Claim C5, as the code has it. There is no check in \<^verbatim>\<open>toCoreV1EnvVar\<close>: when some
  entry has no \<open>=\<close>, \<^verbatim>\<open>splitvar[1]\<close> is read out of range and the function
  panics with index out of range [1] with length 1; this is its only failure and it has
  no other cause. A well-formed entry is split at its first \<open>=\<close>: the name has no
  \<open>=\<close> and the entry is the name, \<open>=\<close> and the value.
\<close>

theorem toCoreV1EnvVar_no_equals_panics:
  "((\<exists>v\<in>set vs. CHR ''='' \<notin> set v) \<longrightarrow> toCoreV1EnvVar vs = Inl (IndexOutOfRange 1 1)) \<and>
   (\<forall>e. toCoreV1EnvVar vs = Inl e \<longrightarrow> e = IndexOutOfRange 1 1 \<and> (\<exists>v\<in>set vs. CHR ''='' \<notin> set v)) \<and>
   (CHR ''='' \<in> set v \<longrightarrow>
      (\<exists>n x. toCoreV1EnvVar [v] = Inr [\<lparr>Name = n, Value = x\<rparr>] \<and> v = n @ ''='' @ x \<and>
             CHR ''='' \<notin> set n))"
proof -
  have a: "toCoreV1EnvVar vs = Inl (IndexOutOfRange 1 1)" if "\<exists>v\<in>set vs. CHR ''='' \<notin> set v"
    using that by (rule toCoreV1EnvVar_malformed)
  have b: "e = IndexOutOfRange 1 1 \<and> (\<exists>v\<in>set vs. CHR ''='' \<notin> set v)"
    if h: "toCoreV1EnvVar vs = Inl e" for e
  proof -
    have "\<exists>v\<in>set vs. CHR ''='' \<notin> set v"
    proof (rule ccontr)
      assume "\<not> (\<exists>v\<in>set vs. CHR ''='' \<notin> set v)"
      then have "\<forall>v\<in>set vs. CHR ''='' \<in> set v" by simp
      from toCoreV1EnvVar_wellformed[OF this] h show False by auto
    qed
    with toCoreV1EnvVar_failure[OF h] show ?thesis by simp
  qed
  have c: "\<exists>n x. toCoreV1EnvVar [v] = Inr [\<lparr>Name = n, Value = x\<rparr>] \<and> v = n @ ''='' @ x \<and>
             CHR ''='' \<notin> set n" if "CHR ''='' \<in> set v"
    using toCoreV1EnvVar_one[OF that, of "[]"] by auto
  from a b c show ?thesis by blast
qed

text \<open>The theorem on an environment with a malformed entry.\<close>

theorem toCoreV1EnvVar_no_equals_panics_witness:
  "CHR ''='' \<notin> set ''FOO'' \<and>
   toCoreV1EnvVar [''PATH=/bin'', ''FOO''] = Inl (IndexOutOfRange 1 1)"
proof -
  have m: "\<exists>v\<in>set [''PATH=/bin'', ''FOO'']. CHR ''='' \<notin> set v" by simp
  from toCoreV1EnvVar_no_equals_panics[of "[''PATH=/bin'', ''FOO'']" "[]"] m
  have "toCoreV1EnvVar [''PATH=/bin'', ''FOO''] = Inl (IndexOutOfRange 1 1)" by blast
  then show ?thesis by simp
qed

text \<open>The entry is not rejected by a check of the program: the runtime panics.\<close>

theorem toCoreV1EnvVar_no_equals_panics_counterexample:
  "toCoreV1EnvVar [''FOO''] = Inl (IndexOutOfRange 1 1)"
  by (simp add: toCoreV1EnvVar.simps SplitN2_def index_def Let_def)

text \<open>
  Claim C10. On well-formed entries \<^verbatim>\<open>toCoreV1EnvVar\<close> returns one variable per
  entry, in the order of the entries: the result has the length of the input, and the
  entry at index \<open>i\<close> is the name at \<open>i\<close>, \<open>=\<close>, and the value at \<open>i\<close>,
  where the name has no \<open>=\<close>. So the split is at the first \<open>=\<close> and whatever
  follows it, further \<open>=\<close> included, is the value.
\<close>

theorem toCoreV1EnvVar_one_per_entry:
  assumes "\<forall>v\<in>set vs. CHR ''='' \<in> set v"
  shows "\<exists>out. toCoreV1EnvVar vs = Inr out \<and> length out = length vs \<and>
     (\<forall>i<length vs. vs ! i = Name (out ! i) @ ''='' @ Value (out ! i) \<and>
        CHR ''='' \<notin> set (Name (out ! i)))"
  using assms by (rule toCoreV1EnvVar_wellformed)

text \<open>The theorem on entries with a duplicate, a value with \<open>=\<close> and an empty value.\<close>

theorem toCoreV1EnvVar_one_per_entry_witness:
  "toCoreV1EnvVar [''A=b=c'', ''HOME=/config'', ''A=b=c'', ''EMPTY='']
   = Inr [\<lparr>Name = ''A'', Value = ''b=c''\<rparr>, \<lparr>Name = ''HOME'', Value = ''/config''\<rparr>,
          \<lparr>Name = ''A'', Value = ''b=c''\<rparr>, \<lparr>Name = ''EMPTY'', Value = []\<rparr>]"
proof -
  let ?vs = "[''A=b=c'', ''HOME=/config'', ''A=b=c'', ''EMPTY='']"
  have "\<forall>v\<in>set ?vs. CHR ''='' \<in> set v" by simp
  from toCoreV1EnvVar_one_per_entry[OF this] obtain out where
    o: "toCoreV1EnvVar ?vs = Inr out" by blast
  moreover have "toCoreV1EnvVar ?vs = Inr [\<lparr>Name = ''A'', Value = ''b=c''\<rparr>, \<lparr>Name = ''HOME'', Value = ''/config''\<rparr>,
          \<lparr>Name = ''A'', Value = ''b=c''\<rparr>, \<lparr>Name = ''EMPTY'', Value = []\<rparr>]"
    by (simp add: toCoreV1EnvVar.simps SplitN2_def index_def Let_def)
  ultimately show ?thesis by simp
qed

section \<open>The watcher: properties\<close>

lemma phases_distinct:
  "PodPending \<noteq> PodFailed" "PodPending \<noteq> PodSucceeded" "PodRunning \<noteq> PodFailed"
  "PodRunning \<noteq> PodSucceeded" "PodUnknown \<noteq> PodFailed" "PodUnknown \<noteq> PodSucceeded"
  "PodFailed \<noteq> PodSucceeded" "PodPending \<noteq> PodRunning" "PodPending \<noteq> PodUnknown"
  "PodRunning \<noteq> PodUnknown"
  by (simp_all add: PodPending_def PodRunning_def PodSucceeded_def PodFailed_def PodUnknown_def)

lemma fst_emit [simp]: "fst (emit es r) = fst r"
  by (simp add: emit_def)

lemma snd_emit [simp]: "snd (emit es r) = es @ snd r"
  by (simp add: emit_def)

lemma calls_append [simp]: "calls P (xs @ ys) = calls P xs + calls P ys"
  by (simp add: calls_def)

lemma calls_Nil [simp]: "calls P [] = 0"
  by (simp add: calls_def)

lemma calls_Cons [simp]: "calls P (x # xs) = (if P x then 1 else 0) + calls P xs"
  by (simp add: calls_def)

text \<open>One turn of the loop on an event that keeps it going.\<close>

lemma wait_keeps_polling:
  assumes "keeps_polling ev"
  shows "fst (waitForPodCompletion L pod (ev # evs)) = fst (waitForPodCompletion L pod evs) \<and>
         calls is_GetPod (snd (waitForPodCompletion L pod (ev # evs)))
           = Suc (calls is_GetPod (snd (waitForPodCompletion L pod evs))) \<and>
         calls is_GetLogsStream (snd (waitForPodCompletion L pod (ev # evs)))
           = calls is_GetLogsStream (snd (waitForPodCompletion L pod evs)) \<and>
         calls is_DeletePod (snd (waitForPodCompletion L pod (ev # evs)))
           = calls is_DeletePod (snd (waitForPodCompletion L pod evs))"
proof (cases ev)
  case CtxDone
  with assms show ?thesis by simp
next
  case (Tick r)
  show ?thesis
  proof (cases r)
    case (Inl err)
    with Tick assms show ?thesis by simp
  next
    case (Inr p)
    with Tick assms show ?thesis by simp
  qed
qed

lemma wait_prefix:
  "\<forall>e\<in>set pre. keeps_polling e \<Longrightarrow>
   fst (waitForPodCompletion L pod (pre @ evs)) = fst (waitForPodCompletion L pod evs) \<and>
   calls is_GetPod (snd (waitForPodCompletion L pod (pre @ evs)))
     = length pre + calls is_GetPod (snd (waitForPodCompletion L pod evs))"
proof (induction pre)
  case Nil
  then show ?case by simp
next
  case (Cons e pre)
  then have k: "keeps_polling e" and r: "\<forall>e\<in>set pre. keeps_polling e" by simp_all
  from wait_keeps_polling[OF k, of L pod "pre @ evs"] Cons.IH[OF r] show ?case by simp
qed

text \<open>The watcher calls nothing but the status fetch.\<close>

lemma wait_no_other_calls:
  "calls is_GetLogsStream (snd (waitForPodCompletion L pod evs)) = 0 \<and>
   calls is_DeletePod (snd (waitForPodCompletion L pod evs)) = 0"
proof (induction evs)
  case Nil
  then show ?case by simp
next
  case (Cons ev evs)
  show ?case
  proof (cases ev)
    case CtxDone
    then show ?thesis by simp
  next
    case (Tick r)
    show ?thesis
    proof (cases r)
      case (Inl err)
      with Tick show ?thesis by simp
    next
      case (Inr p)
      with Tick Cons.IH show ?thesis by simp
    qed
  qed
qed

text \<open>A return comes from the first event that does not keep the loop going.\<close>

lemma wait_returned:
  "fst (waitForPodCompletion L pod evs) = Some r \<Longrightarrow>
   \<exists>pre ev rest. evs = pre @ ev # rest \<and> (\<forall>e\<in>set pre. keeps_polling e) \<and> \<not> keeps_polling ev \<and>
     fst (waitForPodCompletion L pod [ev]) = Some r"
proof (induction evs)
  case Nil
  then show ?case by simp
next
  case (Cons ev evs)
  show ?case
  proof (cases "keeps_polling ev")
    case True
    from wait_keeps_polling[OF True, of L pod evs] Cons.prems
    have "fst (waitForPodCompletion L pod evs) = Some r" by simp
    from Cons.IH[OF this] obtain pre ev' rest where
      h: "evs = pre @ ev' # rest" "\<forall>e\<in>set pre. keeps_polling e" "\<not> keeps_polling ev'"
      "fst (waitForPodCompletion L pod [ev']) = Some r" by blast
    from h(1) have "ev # evs = (ev # pre) @ ev' # rest" by simp
    moreover from True h(2) have "\<forall>e\<in>set (ev # pre). keeps_polling e" by simp
    ultimately show ?thesis using h(3,4) by blast
  next
    case False
    have "fst (waitForPodCompletion L pod (ev # evs)) = fst (waitForPodCompletion L pod [ev])"
    proof (cases ev)
      case CtxDone
      then show ?thesis by simp
    next
      case (Tick x)
      show ?thesis
      proof (cases x)
        case (Inl err)
        with Tick show ?thesis by simp
      next
        case (Inr p)
        with False Tick have "Phase p = PodFailed \<or> Phase p = PodSucceeded" by auto
        with Tick Inr show ?thesis
          by (auto simp: phases_distinct phases_distinct[symmetric])
      qed
    qed
    with Cons.prems have "fst (waitForPodCompletion L pod [ev]) = Some r" by simp
    moreover have "ev # evs = [] @ ev # evs" by simp
    ultimately show ?thesis using False by (metis empty_iff list.set(1))
  qed
qed

lemma wait_one_stop:
  "\<not> keeps_polling ev \<Longrightarrow>
   fst (waitForPodCompletion L pod [ev]) =
     (case ev of
        CtxDone \<Rightarrow> Some (Some ErrContextCancelled)
      | Tick (Inl err) \<Rightarrow> Some (Some (ErrGet err))
      | Tick (Inr p) \<Rightarrow>
          if Phase p = PodFailed then Some (Some (ErrPodFailed (PodName p))) else Some None)"
proof (cases ev)
  case CtxDone
  then show ?thesis by simp
next
  case (Tick x)
  assume nk: "\<not> keeps_polling ev"
  show ?thesis
  proof (cases x)
    case (Inl err)
    with Tick show ?thesis by simp
  next
    case (Inr p)
    with nk Tick have "Phase p = PodFailed \<or> Phase p = PodSucceeded" by auto
    with Tick Inr show ?thesis
      by (auto simp: phases_distinct phases_distinct[symmetric])
  qed
qed

text \<open>
  Claim C2. \<^verbatim>\<open>waitForPodCompletion\<close> returns \<^verbatim>\<open>nil\<close> exactly when, after polls
  that all kept it going, a poll observes the phase \<^verbatim>\<open>Succeeded\<close>; it returns the
  error of a failed pod exactly when such a poll observes \<^verbatim>\<open>Failed\<close>, with the name
  of the pod observed. A poll that observes \<^verbatim>\<open>Pending\<close> or \<^verbatim>\<open>Running\<close> does
  the fetch and nothing else and the loop goes on with the next event; one that
  observes \<^verbatim>\<open>Unknown\<close> logs the warning besides. On events that all keep it
  going the function has not returned.
\<close>

theorem waitForPodCompletion_outcomes:
  "(fst (waitForPodCompletion L pod evs) = Some None \<longleftrightarrow>
      (\<exists>pre p rest. evs = pre @ Tick (Inr p) # rest \<and> (\<forall>e\<in>set pre. keeps_polling e) \<and>
         Phase p = PodSucceeded)) \<and>
   (fst (waitForPodCompletion L pod evs) = Some (Some (ErrPodFailed n)) \<longleftrightarrow>
      (\<exists>pre p rest. evs = pre @ Tick (Inr p) # rest \<and> (\<forall>e\<in>set pre. keeps_polling e) \<and>
         Phase p = PodFailed \<and> PodName p = n)) \<and>
   (Phase q = PodPending \<or> Phase q = PodRunning \<longrightarrow>
      waitForPodCompletion L pod (Tick (Inr q) # evs) =
        emit [GetPod (PodNamespace pod) (PodName pod)] (waitForPodCompletion L pod evs)) \<and>
   (Phase q = PodUnknown \<longrightarrow>
      waitForPodCompletion L pod (Tick (Inr q) # evs) =
        emit [GetPod (PodNamespace pod) (PodName pod),
              Printf (''warning: pod '' @ Quote L (PodName q) @ '' is in an unknown state'')]
          (waitForPodCompletion L pod evs)) \<and>
   ((\<forall>e\<in>set evs. keeps_polling e) \<longrightarrow> fst (waitForPodCompletion L pod evs) = None)"
proof -
  have ok_if: "fst (waitForPodCompletion L pod evs) = Some None"
    if "evs = pre @ Tick (Inr p) # rest" "\<forall>e\<in>set pre. keeps_polling e" "Phase p = PodSucceeded"
    for pre p rest
  proof -
    have "fst (waitForPodCompletion L pod (Tick (Inr p) # rest)) = Some None"
      using that(3) by (simp add: phases_distinct phases_distinct[symmetric])
    with wait_prefix[OF that(2), of L pod "Tick (Inr p) # rest"] that(1) show ?thesis by simp
  qed
  have fail_if: "fst (waitForPodCompletion L pod evs) = Some (Some (ErrPodFailed n))"
    if "evs = pre @ Tick (Inr p) # rest" "\<forall>e\<in>set pre. keeps_polling e" "Phase p = PodFailed"
      "PodName p = n" for pre p rest
  proof -
    have "fst (waitForPodCompletion L pod (Tick (Inr p) # rest)) = Some (Some (ErrPodFailed n))"
      using that(3,4) by (simp add: phases_distinct phases_distinct[symmetric])
    with wait_prefix[OF that(2), of L pod "Tick (Inr p) # rest"] that(1) show ?thesis by simp
  qed
  have ok_only: "\<exists>pre p rest. evs = pre @ Tick (Inr p) # rest \<and> (\<forall>e\<in>set pre. keeps_polling e) \<and>
         Phase p = PodSucceeded"
    if r: "fst (waitForPodCompletion L pod evs) = Some None"
  proof -
    from wait_returned[OF r] obtain pre ev rest where
      h: "evs = pre @ ev # rest" "\<forall>e\<in>set pre. keeps_polling e" "\<not> keeps_polling ev"
      "fst (waitForPodCompletion L pod [ev]) = Some None" by blast
    from wait_one_stop[OF h(3), of L pod] h(4) obtain p where
      p: "ev = Tick (Inr p)" "Phase p \<noteq> PodFailed"
      by (auto split: wait_event.splits sum.splits if_splits)
    with h(3) have "Phase p = PodSucceeded" by simp
    with h(1,2) p(1) show ?thesis by blast
  qed
  have fail_only: "\<exists>pre p rest. evs = pre @ Tick (Inr p) # rest \<and> (\<forall>e\<in>set pre. keeps_polling e) \<and>
         Phase p = PodFailed \<and> PodName p = n"
    if r: "fst (waitForPodCompletion L pod evs) = Some (Some (ErrPodFailed n))"
  proof -
    from wait_returned[OF r] obtain pre ev rest where
      h: "evs = pre @ ev # rest" "\<forall>e\<in>set pre. keeps_polling e" "\<not> keeps_polling ev"
      "fst (waitForPodCompletion L pod [ev]) = Some (Some (ErrPodFailed n))" by blast
    from wait_one_stop[OF h(3), of L pod] h(4) obtain p where
      p: "ev = Tick (Inr p)" "Phase p = PodFailed" "PodName p = n"
      by (auto split: wait_event.splits sum.splits if_splits)
    with h(1,2) show ?thesis by blast
  qed
  have cont: "waitForPodCompletion L pod (Tick (Inr q) # evs) =
        emit [GetPod (PodNamespace pod) (PodName pod)] (waitForPodCompletion L pod evs)"
    if "Phase q = PodPending \<or> Phase q = PodRunning"
    using that by (auto simp: phases_distinct phases_distinct[symmetric])
  have unk: "waitForPodCompletion L pod (Tick (Inr q) # evs) =
        emit [GetPod (PodNamespace pod) (PodName pod),
              Printf (''warning: pod '' @ Quote L (PodName q) @ '' is in an unknown state'')]
          (waitForPodCompletion L pod evs)"
    if "Phase q = PodUnknown"
    using that by (simp add: phases_distinct phases_distinct[symmetric] emit_def)
  have never: "fst (waitForPodCompletion L pod evs) = None" if "\<forall>e\<in>set evs. keeps_polling e"
    using wait_prefix[OF that, of L pod "[]"] by simp
  from ok_if ok_only have a: "fst (waitForPodCompletion L pod evs) = Some None \<longleftrightarrow>
      (\<exists>pre p rest. evs = pre @ Tick (Inr p) # rest \<and> (\<forall>e\<in>set pre. keeps_polling e) \<and>
         Phase p = PodSucceeded)" by blast
  from fail_if fail_only have b: "fst (waitForPodCompletion L pod evs) = Some (Some (ErrPodFailed n)) \<longleftrightarrow>
      (\<exists>pre p rest. evs = pre @ Tick (Inr p) # rest \<and> (\<forall>e\<in>set pre. keeps_polling e) \<and>
         Phase p = PodFailed \<and> PodName p = n)" by blast
  from a b cont unk never show ?thesis by blast
qed

text \<open>The theorem on a pod that is pending, running, unknown and then succeeds.\<close>

theorem waitForPodCompletion_outcomes_witness:
  "fst (waitForPodCompletion example_lib (example_pod PodPending)
     [Tick (Inr (example_pod PodPending)), Tick (Inr (example_pod PodRunning)),
      Tick (Inr (example_pod PodUnknown)), Tick (Inr (example_pod PodSucceeded))]) = Some None \<and>
   keeps_polling (Tick (Inr (example_pod PodPending))) \<and>
   keeps_polling (Tick (Inr (example_pod PodRunning))) \<and>
   keeps_polling (Tick (Inr (example_pod PodUnknown))) \<and>
   Phase (example_pod PodSucceeded) = PodSucceeded"
proof -
  let ?pre = "[Tick (Inr (example_pod PodPending)), Tick (Inr (example_pod PodRunning)),
      Tick (Inr (example_pod PodUnknown))]"
  let ?evs = "?pre @ Tick (Inr (example_pod PodSucceeded)) # []"
  have k: "keeps_polling (Tick (Inr (example_pod PodPending)))"
    "keeps_polling (Tick (Inr (example_pod PodRunning)))"
    "keeps_polling (Tick (Inr (example_pod PodUnknown)))"
    by (simp_all add: example_pod_def phases_distinct)
  have s: "Phase (example_pod PodSucceeded) = PodSucceeded" by (simp add: example_pod_def)
  from k have pre: "\<forall>e\<in>set ?pre. keeps_polling e" by simp
  have "\<exists>pre p rest. ?evs = pre @ Tick (Inr p) # rest \<and> (\<forall>e\<in>set pre. keeps_polling e) \<and>
         Phase p = PodSucceeded"
    using pre s by blast
  with waitForPodCompletion_outcomes[of example_lib "example_pod PodPending" ?evs]
  have "fst (waitForPodCompletion example_lib (example_pod PodPending) ?evs) = Some None"
    by blast
  with k s show ?thesis by simp
qed

text \<open>
  Claim C3, as the code has it. A poll that returns an error ends the watcher: after
  polls that kept it going, the error of the fetch is returned as it is, and the
  fetches made are those polls and the failing one, whatever events would follow. There
  is no retry.
\<close>

theorem waitForPodCompletion_get_error:
  assumes "\<forall>e\<in>set pre. keeps_polling e"
  shows "fst (waitForPodCompletion L pod (pre @ Tick (Inl err) # rest)) = Some (Some (ErrGet err)) \<and>
         calls is_GetPod (snd (waitForPodCompletion L pod (pre @ Tick (Inl err) # rest)))
           = Suc (length pre)"
  using wait_prefix[OF assms, of L pod "Tick (Inl err) # rest"] by simp

text \<open>The theorem on a running pod whose second poll fails.\<close>

theorem waitForPodCompletion_get_error_witness:
  "keeps_polling (Tick (Inr (example_pod PodRunning))) \<and>
   fst (waitForPodCompletion example_lib (example_pod PodPending)
     [Tick (Inr (example_pod PodRunning)), Tick (Inl ''connection refused''),
      Tick (Inr (example_pod PodSucceeded))]) = Some (Some (ErrGet ''connection refused'')) \<and>
   calls is_GetPod (snd (waitForPodCompletion example_lib (example_pod PodPending)
     [Tick (Inr (example_pod PodRunning)), Tick (Inl ''connection refused''),
      Tick (Inr (example_pod PodSucceeded))])) = 2"
proof -
  have k: "keeps_polling (Tick (Inr (example_pod PodRunning)))"
    by (simp add: example_pod_def phases_distinct)
  then have "\<forall>e\<in>set [Tick (Inr (example_pod PodRunning))]. keeps_polling e" by simp
  from waitForPodCompletion_get_error[OF this, of example_lib "example_pod PodPending"
      "''connection refused''" "[Tick (Inr (example_pod PodSucceeded))]"] k
  show ?thesis by simp
qed

text \<open>
  The poll fails once and would have observed \<^verbatim>\<open>Succeeded\<close> on the next tick: the
  watcher has returned the error after the one fetch.
\<close>

theorem waitForPodCompletion_get_error_counterexample:
  "waitForPodCompletion example_lib (example_pod PodPending)
     [Tick (Inl ''connection refused''), Tick (Inr (example_pod PodSucceeded))]
   = (Some (Some (ErrGet ''connection refused'')), [GetPod ''plex'' ''pms-elastic-transcoder-x7k2p''])"
  by (simp add: example_pod_def emit_def)

section \<open>The orchestrator: properties\<close>

subsection \<open>The calls of each part of a run\<close>

lemma wait_trace_kind:
  "e \<in> set (snd (waitForPodCompletion L pod evs)) \<Longrightarrow> is_GetPod e \<or> (\<exists>s. e = Printf s)"
proof (induction evs)
  case Nil
  then show ?case by simp
next
  case (Cons ev evs)
  show ?case
  proof (cases ev)
    case CtxDone
    with Cons.prems show ?thesis by simp
  next
    case (Tick r)
    show ?thesis
    proof (cases r)
      case (Inl err)
      with Tick Cons.prems show ?thesis by auto
    next
      case (Inr p)
      with Tick Cons show ?thesis by (auto split: if_splits)
    qed
  qed
qed

lemma main_select_trace:
  "snd (main_select L pod w) =
     snd (waitForPodCompletion L pod
       (map Tick (case stop_after w of None \<Rightarrow> api_Get w | Some k \<Rightarrow> take k (api_Get w))))"
  by (simp add: main_select_def split: option.splits prod.splits)

lemma main_select_calls:
  assumes "main_select L pod w = (r, tr)"
  shows "calls is_DeletePod tr = 0 \<and> calls is_GetLogsStream tr = 0"
proof -
  from main_select_trace[of L pod w] assms obtain evs where
    "tr = snd (waitForPodCompletion L pod evs)" by simp
  with wait_no_other_calls[of L pod evs] show ?thesis by simp
qed

lemma main_select_no_create:
  assumes "main_select L pod w = (r, tr)"
  shows "CreatePod ns p \<notin> set tr"
proof
  assume m: "CreatePod ns p \<in> set tr"
  from main_select_trace[of L pod w] assms obtain evs where
    "tr = snd (waitForPodCompletion L pod evs)" by simp
  with m wait_trace_kind[of "CreatePod ns p" L pod evs] show False by auto
qed

lemma main_setup_calls:
  "main_setup L g w = (r, tr) \<Longrightarrow> calls is_DeletePod tr = 0 \<and> calls is_GetLogsStream tr = 0"
  by (auto simp: main_setup_def Let_def emit_def split: sum.splits option.splits)

lemma main_cleanup_calls:
  "calls is_DeletePod (snd (main_cleanup g pod w)) = 1 \<and>
   calls is_GetLogsStream (snd (main_cleanup g pod w)) = 0 \<and>
   CreatePod ns p \<notin> set (snd (main_cleanup g pod w))"
  by (auto simp: main_cleanup_def split: option.splits)

lemma main_dump_logs_calls:
  "calls is_GetLogsStream (snd (main_dump_logs L g pod w err)) = 1 \<and>
   calls is_DeletePod (snd (main_dump_logs L g pod w err)) =
     (if api_Stream w = None \<and> (\<exists>logs. io_ReadAll w = Inr logs) then 1 else 0) \<and>
   CreatePod ns p \<notin> set (snd (main_dump_logs L g pod w err))"
  using main_cleanup_calls[of g pod w ns p]
  by (auto simp: main_dump_logs_def split: option.splits sum.splits)

lemma main_dump_logs_surfaced:
  "api_Stream w = None \<Longrightarrow> io_ReadAll w = Inr logs \<Longrightarrow>
   Printf (''pod logs:'' @ [CHR 0x0A] @ logs) \<in> set (snd (main_dump_logs L g pod w err))"
  by (simp add: main_dump_logs_def)

text \<open>The run once the pod is created and the select has received something.\<close>

lemma main_after_select:
  assumes "main_setup L g w = (Inr pod, tr0)" and "main_select L pod w = (Some r, tr1)"
  shows "snd (main L g w) =
     tr0 @ tr1 @
       (case r of
          WaitReturned None \<Rightarrow> snd (main_cleanup (setDefaults g) pod w)
        | WaitReturned (Some err) \<Rightarrow> snd (main_dump_logs L (setDefaults g) pod w err)
        | StopReceived \<Rightarrow> Printf ''exit requested.'' # snd (main_cleanup (setDefaults g) pod w))"
  using assms by (simp add: main_def Let_def split: select_result.splits option.splits)

lemma generatePod_limit:
  assumes "generatePod L g cwd uid gid env args = Inr pod"
  shows "\<exists>q. MustParse L (limitCPU g) = Some q \<and> map Limits (Containers pod) = [[(''cpu'', q)]]"
  using assms
  by (auto simp: generatePod_def ResourceCPU_def split: sum.splits option.splits)

lemma main_setup_created:
  assumes "main_setup L g w = (r, tr)" and "CreatePod ns pod \<in> set tr"
  shows "ns = namespace (setDefaults g) \<and>
         (\<exists>cwd args. os_Getwd w = Inr cwd \<and>
            rewriteArgs (pmsInternalAddress g) (os_Args w) = Inr args \<and>
            generatePod L (setDefaults g) cwd (PLEX_UID w) (PLEX_GID w)
              (rewriteEnv (os_Environ w)) args = Inr pod)"
  using assms
  by (auto simp: main_setup_def Let_def emit_def split: sum.splits option.splits)

lemma main_created:
  assumes "CreatePod ns pod \<in> set (snd (main L g w))"
  shows "CreatePod ns pod \<in> set (snd (main_setup L g w))"
proof (cases "main_setup L g w")
  case (Pair x tr0)
  note su = this
  show ?thesis
  proof (cases x)
    case (Inl e)
    with su assms show ?thesis by (simp add: main_def)
  next
    case (Inr p)
    show ?thesis
    proof (cases "main_select L p w")
      case (Pair y tr1)
      note se = this
      note nc = main_select_no_create[OF se, of ns pod]
      show ?thesis
      proof (cases y)
        case None
        with su Inr se assms nc show ?thesis by (simp add: main_def Let_def)
      next
        case (Some r)
        from main_after_select[of L g w p tr0 r tr1] su Inr se Some
        have t: "snd (main L g w) =
          tr0 @ tr1 @
           (case r of
              WaitReturned None \<Rightarrow> snd (main_cleanup (setDefaults g) p w)
            | WaitReturned (Some err) \<Rightarrow> snd (main_dump_logs L (setDefaults g) p w err)
            | StopReceived \<Rightarrow> Printf ''exit requested.'' # snd (main_cleanup (setDefaults g) p w))"
          by simp
        have "CreatePod ns pod \<notin> set (case r of
              WaitReturned None \<Rightarrow> snd (main_cleanup (setDefaults g) p w)
            | WaitReturned (Some err) \<Rightarrow> snd (main_dump_logs L (setDefaults g) p w err)
            | StopReceived \<Rightarrow> Printf ''exit requested.'' # snd (main_cleanup (setDefaults g) p w))"
          using main_cleanup_calls[of "setDefaults g" p w ns pod]
            main_dump_logs_calls[of L "setDefaults g" p w _ ns pod]
          by (auto split: select_result.splits option.splits)
        with t assms nc su show ?thesis by simp
      qed
    qed
  qed
qed

lemma namespace_setDefaults [simp]: "namespace (setDefaults g) = namespace g"
  by (simp add: setDefaults_def)

lemma main_creates:
  assumes "rewriteArgs (pmsInternalAddress g) (os_Args w) = Inr args" and "os_Getwd w = Inr cwd"
    and "BuildConfigFromFlags w = None" and "NewForConfig w = None"
    and "generatePod L (setDefaults g) cwd (PLEX_UID w) (PLEX_GID w)
           (rewriteEnv (os_Environ w)) args = Inr pod"
  shows "CreatePod (namespace g) pod \<in> set (snd (main L g w))"
  using assms
  by (auto simp: main_def main_setup_def Let_def emit_def
      split: sum.splits prod.splits option.splits select_result.splits)

text \<open>The definitions to unfold when a run is evaluated on the example.\<close>

lemmas example_eval =
  main_def main_setup_def main_select_def main_cleanup_def main_dump_logs_def
  example_world_def example_globals_def example_lib_def
  example_pod_def rewriteArgs_def rewriteArgs_loop.simps rewriteEnv_def generatePod_def
  toCoreV1EnvVar.simps SplitN2_def index_def strToi64_def setDefaults_def Let_def emit_def
  is_url_flag_def is_loglevel_flag_def loopback_def constDefaultLimitCPU_def
  PodPending_def PodRunning_def PodSucceeded_def PodFailed_def PodUnknown_def
  ResourceCPU_def RestartPolicyNever_def

subsection \<open>The claims about a run\<close>

text \<open>
  Claim C1, as the code has it. No run deletes the pod more than once. In a run that
  created the pod and whose select received something, the delete is called exactly
  once when that is the stop signal or a wait that returned \<^verbatim>\<open>nil\<close>; when the wait
  returned an error it is called exactly once if the log stream opens and is read
  without error, and not at all otherwise: an error of the log dump is fatal, and the
  process ends before the cleanup.
\<close>

theorem main_delete_once:
  "calls is_DeletePod (snd (main L g w)) \<le> 1 \<and>
   (\<forall>pod tr0 r tr1.
      main_setup L g w = (Inr pod, tr0) \<and> main_select L pod w = (Some r, tr1) \<longrightarrow>
      calls is_DeletePod (snd (main L g w)) =
        (case r of
           StopReceived \<Rightarrow> 1
         | WaitReturned None \<Rightarrow> 1
         | WaitReturned (Some err) \<Rightarrow>
             if api_Stream w = None \<and> (\<exists>logs. io_ReadAll w = Inr logs) then 1 else 0))"
proof -
  have exact: "calls is_DeletePod (snd (main L g w)) =
        (case r of
           StopReceived \<Rightarrow> 1
         | WaitReturned None \<Rightarrow> 1
         | WaitReturned (Some err) \<Rightarrow>
             if api_Stream w = None \<and> (\<exists>logs. io_ReadAll w = Inr logs) then 1 else 0)"
    if su: "main_setup L g w = (Inr pod, tr0)" and se: "main_select L pod w = (Some r, tr1)"
    for pod tr0 r tr1
  proof -
    note t = main_after_select[OF su se]
    from main_setup_calls[OF su] have c0: "calls is_DeletePod tr0 = 0" by simp
    from main_select_calls[OF se] have c1: "calls is_DeletePod tr1 = 0" by simp
    show ?thesis
    proof (cases r)
      case StopReceived
      with t c0 c1 main_cleanup_calls[of "setDefaults g" pod w] show ?thesis by simp
    next
      case (WaitReturned x)
      show ?thesis
      proof (cases x)
        case None
        with WaitReturned t c0 c1 main_cleanup_calls[of "setDefaults g" pod w]
        show ?thesis by simp
      next
        case (Some err)
        with WaitReturned t c0 c1 main_dump_logs_calls[of L "setDefaults g" pod w err]
        show ?thesis by simp
      qed
    qed
  qed
  have "calls is_DeletePod (snd (main L g w)) \<le> 1"
  proof (cases "main_setup L g w")
    case (Pair x tr0)
    note su = this
    show ?thesis
    proof (cases x)
      case (Inl e)
      with su main_setup_calls[OF su] show ?thesis by (simp add: main_def)
    next
      case (Inr pod)
      show ?thesis
      proof (cases "main_select L pod w")
        case (Pair y tr1)
        note se = this
        show ?thesis
        proof (cases y)
          case None
          with su Inr se main_setup_calls[OF su] main_select_calls[OF se]
          show ?thesis by (simp add: main_def Let_def)
        next
          case (Some r)
          from exact[of pod tr0 r tr1] su Inr se Some show ?thesis
            by (auto split: select_result.splits option.splits if_splits)
        qed
      qed
    qed
  qed
  with exact show ?thesis by blast
qed

text \<open>The theorem on a run whose pod fails and whose logs are read.\<close>

theorem main_delete_once_witness:
  "fst (main_setup example_lib example_globals example_world) = Inr (example_pod PodPending) \<and>
   fst (main_select example_lib (example_pod PodPending) example_world)
     = Some (WaitReturned (Some (ErrPodFailed ''pms-elastic-transcoder-x7k2p''))) \<and>
   api_Stream example_world = None \<and> io_ReadAll example_world = Inr ''Conversion failed!'' \<and>
   calls is_DeletePod (snd (main example_lib example_globals example_world)) = 1"
proof -
  let ?r = "WaitReturned (Some (ErrPodFailed ''pms-elastic-transcoder-x7k2p''))"
  have su: "fst (main_setup example_lib example_globals example_world) = Inr (example_pod PodPending)"
    by (simp add: example_eval)
  have se: "fst (main_select example_lib (example_pod PodPending) example_world) = Some ?r"
    by (simp add: example_eval)
  have st: "api_Stream example_world = None" "io_ReadAll example_world = Inr ''Conversion failed!''"
    by (simp_all add: example_world_def)
  from su have su': "main_setup example_lib example_globals example_world
      = (Inr (example_pod PodPending), snd (main_setup example_lib example_globals example_world))"
    by (simp add: prod_eq_iff)
  from se have se': "main_select example_lib (example_pod PodPending) example_world
      = (Some ?r, snd (main_select example_lib (example_pod PodPending) example_world))"
    by (simp add: prod_eq_iff)
  from main_delete_once[of example_lib example_globals example_world] su' se'
  have "calls is_DeletePod (snd (main example_lib example_globals example_world)) =
        (case ?r of
           StopReceived \<Rightarrow> 1
         | WaitReturned None \<Rightarrow> 1
         | WaitReturned (Some err) \<Rightarrow>
             if api_Stream example_world = None \<and> (\<exists>logs. io_ReadAll example_world = Inr logs)
             then 1 else 0)"
    by blast
  with st have "calls is_DeletePod (snd (main example_lib example_globals example_world)) = 1"
    by simp
  with su se st show ?thesis by simp
qed

text \<open>
  The pod fails and the log stream cannot be opened: the run ends in
  \<^verbatim>\<open>log.Fatalf\<close> and has made no delete call.
\<close>

theorem main_delete_once_counterexample:
  "fst (main_select example_lib (example_pod PodPending)
          (example_world\<lparr>api_Stream := Some ''container not found''\<rparr>))
     = Some (WaitReturned (Some (ErrPodFailed ''pms-elastic-transcoder-x7k2p''))) \<and>
   fst (main example_lib example_globals (example_world\<lparr>api_Stream := Some ''container not found''\<rparr>))
     = Died (Fatal ''Error getting pod logs: container not found'') \<and>
   calls is_DeletePod
     (snd (main example_lib example_globals (example_world\<lparr>api_Stream := Some ''container not found''\<rparr>)))
     = 0"
  by (simp add: example_eval calls_def)

text \<open>
  Claim C4, as the code has it. In a run that created the pod and whose select received
  something, the log stream is requested exactly once when the wait returned an error,
  whichever error it is (the pod failed, or a poll failed), and not at all on a wait
  that returned \<^verbatim>\<open>nil\<close> or on the stop signal. When the stream opens and is read
  without error, what was read is logged after \<open>pod logs:\<close> and a newline.
\<close>

theorem main_logs_fetched:
  assumes su: "main_setup L g w = (Inr pod, tr0)" and se: "main_select L pod w = (Some r, tr1)"
  shows "calls is_GetLogsStream (snd (main L g w)) =
           (case r of StopReceived \<Rightarrow> 0 | WaitReturned None \<Rightarrow> 0 | WaitReturned (Some err) \<Rightarrow> 1) \<and>
         (\<forall>err logs. r = WaitReturned (Some err) \<and> api_Stream w = None \<and> io_ReadAll w = Inr logs \<longrightarrow>
            Printf (''pod logs:'' @ [CHR 0x0A] @ logs) \<in> set (snd (main L g w)))"
proof -
  note t = main_after_select[OF su se]
  from main_setup_calls[OF su] have c0: "calls is_GetLogsStream tr0 = 0" by simp
  from main_select_calls[OF se] have c1: "calls is_GetLogsStream tr1 = 0" by simp
  have n: "calls is_GetLogsStream (snd (main L g w)) =
           (case r of StopReceived \<Rightarrow> 0 | WaitReturned None \<Rightarrow> 0 | WaitReturned (Some err) \<Rightarrow> 1)"
  proof (cases r)
    case StopReceived
    with t c0 c1 main_cleanup_calls[of "setDefaults g" pod w] show ?thesis by simp
  next
    case (WaitReturned x)
    show ?thesis
    proof (cases x)
      case None
      with WaitReturned t c0 c1 main_cleanup_calls[of "setDefaults g" pod w]
      show ?thesis by simp
    next
      case (Some err)
      with WaitReturned t c0 c1 main_dump_logs_calls[of L "setDefaults g" pod w err]
      show ?thesis by simp
    qed
  qed
  have s: "Printf (''pod logs:'' @ [CHR 0x0A] @ logs) \<in> set (snd (main L g w))"
    if "r = WaitReturned (Some err)" "api_Stream w = None" "io_ReadAll w = Inr logs" for err logs
    using t that main_dump_logs_surfaced[OF that(2,3), of L "setDefaults g" pod err] by simp
  from n s show ?thesis by blast
qed

text \<open>The theorem on a run whose pod fails.\<close>

theorem main_logs_fetched_witness:
  "fst (main_setup example_lib example_globals example_world) = Inr (example_pod PodPending) \<and>
   fst (main_select example_lib (example_pod PodPending) example_world)
     = Some (WaitReturned (Some (ErrPodFailed ''pms-elastic-transcoder-x7k2p''))) \<and>
   calls is_GetLogsStream (snd (main example_lib example_globals example_world)) = 1 \<and>
   Printf (''pod logs:'' @ [CHR 0x0A] @ ''Conversion failed!'')
     \<in> set (snd (main example_lib example_globals example_world))"
proof -
  let ?r = "WaitReturned (Some (ErrPodFailed ''pms-elastic-transcoder-x7k2p''))"
  have su: "fst (main_setup example_lib example_globals example_world) = Inr (example_pod PodPending)"
    by (simp add: example_eval)
  have se: "fst (main_select example_lib (example_pod PodPending) example_world) = Some ?r"
    by (simp add: example_eval)
  have st: "api_Stream example_world = None" "io_ReadAll example_world = Inr ''Conversion failed!''"
    by (simp_all add: example_world_def)
  from su have su': "main_setup example_lib example_globals example_world
      = (Inr (example_pod PodPending), snd (main_setup example_lib example_globals example_world))"
    by (simp add: prod_eq_iff)
  from se have se': "main_select example_lib (example_pod PodPending) example_world
      = (Some ?r, snd (main_select example_lib (example_pod PodPending) example_world))"
    by (simp add: prod_eq_iff)
  note t = main_logs_fetched[OF su' se']
  from t have n: "calls is_GetLogsStream (snd (main example_lib example_globals example_world)) = 1"
    by simp
  from t st have p: "Printf (''pod logs:'' @ [CHR 0x0A] @ ''Conversion failed!'')
     \<in> set (snd (main example_lib example_globals example_world))"
    by blast
  from su se n p show ?thesis by simp
qed

text \<open>
  The first poll fails: the wait has not ended with a failed pod, and the logs are
  fetched all the same.
\<close>

theorem main_logs_fetched_counterexample:
  "fst (main_select example_lib (example_pod PodPending)
          (example_world\<lparr>api_Get := [Inl ''connection refused'']\<rparr>))
     = Some (WaitReturned (Some (ErrGet ''connection refused''))) \<and>
   calls is_GetLogsStream
     (snd (main example_lib example_globals (example_world\<lparr>api_Get := [Inl ''connection refused'']\<rparr>)))
     = 1"
  by (simp add: example_eval calls_def)

text \<open>
  Claim C9. \<^verbatim>\<open>setDefaults\<close> replaces an empty CPU limit by \<open>100m\<close> and leaves any
  other as it is; the pod that \<^verbatim>\<open>main\<close> submits has the one limit \<open>cpu\<close>, whose
  quantity is what \<^verbatim>\<open>resource.MustParse\<close> returns on that string.
\<close>

theorem main_cpu_limit:
  assumes "CreatePod ns pod \<in> set (snd (main L g w))"
  shows "limitCPU (setDefaults g) = (if limitCPU g = [] then ''100m'' else limitCPU g) \<and>
         (\<exists>q. MustParse L (limitCPU (setDefaults g)) = Some q \<and>
              map Limits (Containers pod) = [[(''cpu'', q)]])"
proof -
  have d: "limitCPU (setDefaults g) = (if limitCPU g = [] then ''100m'' else limitCPU g)"
    by (simp add: setDefaults_def constDefaultLimitCPU_def)
  from main_created[OF assms] have "CreatePod ns pod \<in> set (snd (main_setup L g w))" .
  with main_setup_created[of L g w "fst (main_setup L g w)" "snd (main_setup L g w)" ns pod]
  obtain cwd args where
    "generatePod L (setDefaults g) cwd (PLEX_UID w) (PLEX_GID w)
       (rewriteEnv (os_Environ w)) args = Inr pod" by auto
  from generatePod_limit[OF this] d show ?thesis by simp
qed

text \<open>The theorem with the limit unset, and with the limit \<open>2\<close>.\<close>

theorem main_cpu_limit_witness:
  "(\<exists>pod. CreatePod ''plex'' pod \<in> set (snd (main example_lib example_globals example_world)) \<and>
      map Limits (Containers pod) = [[(''cpu'', ''100m'')]]) \<and>
   (\<exists>pod. CreatePod ''plex'' pod
        \<in> set (snd (main example_lib (example_globals\<lparr>limitCPU := ''2''\<rparr>) example_world)) \<and>
      map Limits (Containers pod) = [[(''cpu'', ''2'')]])"
proof -
  have a: "\<exists>pod. CreatePod ''plex'' pod \<in> set (snd (main example_lib g example_world)) \<and>
      map Limits (Containers pod) = [[(''cpu'', c)]]"
    if g: "g = example_globals\<lparr>limitCPU := l\<rparr>" and c: "c = (if l = [] then ''100m'' else l)" for g l c
  proof -
    have ar: "rewriteArgs (pmsInternalAddress g) (os_Args example_world) =
      Inr [''Plex Transcoder'', ''-loglevel'', ''debug'', ''-progressurl'',
           ''http://plex:32400/video/:/transcode/session/1/progress'']"
      by (simp add: g example_eval)
    have wd: "os_Getwd example_world = Inr ''/transcode''"
      "BuildConfigFromFlags example_world = None" "NewForConfig example_world = None"
      by (simp_all add: example_world_def)
    have "\<exists>pod. generatePod example_lib (setDefaults g) ''/transcode'' (PLEX_UID example_world)
            (PLEX_GID example_world) (rewriteEnv (os_Environ example_world))
            [''Plex Transcoder'', ''-loglevel'', ''debug'', ''-progressurl'',
             ''http://plex:32400/video/:/transcode/session/1/progress''] = Inr pod"
      by (simp add: g example_eval)
    then obtain pod where gp: "generatePod example_lib (setDefaults g) ''/transcode''
            (PLEX_UID example_world)
            (PLEX_GID example_world) (rewriteEnv (os_Environ example_world))
            [''Plex Transcoder'', ''-loglevel'', ''debug'', ''-progressurl'',
             ''http://plex:32400/video/:/transcode/session/1/progress''] = Inr pod" ..
    have ns: "namespace g = ''plex''" by (simp add: g example_globals_def)
    from main_creates[OF ar wd gp] ns
    have m: "CreatePod ''plex'' pod \<in> set (snd (main example_lib g example_world))" by simp
    note t = main_cpu_limit[OF m]
    from t have d: "limitCPU (setDefaults g) = (if limitCPU g = [] then ''100m'' else limitCPU g)"
      by (rule conjunct1)
    from t[THEN conjunct2] obtain q where
      q: "MustParse example_lib (limitCPU (setDefaults g)) = Some q"
      "map Limits (Containers pod) = [[(''cpu'', q)]]" by (elim exE conjE)
    from q(1) d have "q = c" by (auto simp: g c example_lib_def split: if_splits)
    with m q(2) show ?thesis by auto
  qed
  from a[of example_globals "[]" "''100m''"] a[of "example_globals\<lparr>limitCPU := ''2''\<rparr>" "''2''" "''2''"]
  show ?thesis by (simp add: example_globals_def)
qed

end
